theory Spec2Isabelle
  imports Complex_Main "HOL-Library.Sublist"
begin

section \<open>Strings and errors\<close>

text \<open>
  Python \<open>str\<close> values are modelled as \<open>string\<close>, lists of 8-bit characters: a character of
  the model is a code point from U+0000 to U+00FF, and the string functions below are
  Python's on these code points. Text with code points beyond U+00FF is outside the model.
  Exceptions are values of the type \<open>error\<close>; a function that can raise returns
  \<open>error + 'a\<close>, with \<open>Inl\<close> the exception. The exceptions that have a message carry it.
  \<open>NonFinite\<close> is not an exception of Python: it marks a float computation that leaves the
  finite floats, where the model stops.
\<close>

datatype error =
    ValueError string
  | FileNotFoundError string
  | KeyError string
  | IndexError
  | ZeroDivisionError string
  | NonFinite
  | SystemExit nat

text \<open>
  The characters \<open>str.strip()\<close> removes, those for which \<open>str.isspace\<close> holds: TAB, LF, VT,
  FF, CR, FS, GS, RS, US, the space, NEL (U+0085) and the no-break space (U+00A0).
\<close>

definition whitespace :: "char list" where
  "whitespace = [CHR 0x09, CHR 0x0A, CHR 0x0B, CHR 0x0C, CHR 0x0D,
                 CHR 0x1C, CHR 0x1D, CHR 0x1E, CHR 0x1F, CHR 0x20, CHR 0x85, CHR 0xA0]"

definition is_space :: "char \<Rightarrow> bool" where
  "is_space c = (c \<in> set whitespace)"

text \<open>\<open>s.lstrip(chars)\<close>, \<open>s.rstrip(chars)\<close> and \<open>s.strip()\<close>.\<close>

definition lstrip_chars :: "char list \<Rightarrow> string \<Rightarrow> string" where
  "lstrip_chars chars s = dropWhile (\<lambda>c. c \<in> set chars) s"

definition rstrip_chars :: "char list \<Rightarrow> string \<Rightarrow> string" where
  "rstrip_chars chars s = rev (dropWhile (\<lambda>c. c \<in> set chars) (rev s))"

definition strip :: "string \<Rightarrow> string" where
  "strip s = rstrip_chars whitespace (lstrip_chars whitespace s)"

text \<open>
  \<open>str.lower\<close>: the letters A to Z, and the capital letters U+00C0 to U+00DE of
  Latin-1 (all but the multiplication sign U+00D7), go to the letter 32 code points up;
  every other character is kept.
\<close>

definition upper_letters :: "char list" where
  "upper_letters =
     ''ABCDEFGHIJKLMNOPQRSTUVWXYZ'' @
     [CHR 0xC0, CHR 0xC1, CHR 0xC2, CHR 0xC3, CHR 0xC4, CHR 0xC5, CHR 0xC6, CHR 0xC7,
      CHR 0xC8, CHR 0xC9, CHR 0xCA, CHR 0xCB, CHR 0xCC, CHR 0xCD, CHR 0xCE, CHR 0xCF,
      CHR 0xD0, CHR 0xD1, CHR 0xD2, CHR 0xD3, CHR 0xD4, CHR 0xD5, CHR 0xD6, CHR 0xD8,
      CHR 0xD9, CHR 0xDA, CHR 0xDB, CHR 0xDC, CHR 0xDD, CHR 0xDE]"

definition lower_letters :: "char list" where
  "lower_letters =
     ''abcdefghijklmnopqrstuvwxyz'' @
     [CHR 0xE0, CHR 0xE1, CHR 0xE2, CHR 0xE3, CHR 0xE4, CHR 0xE5, CHR 0xE6, CHR 0xE7,
      CHR 0xE8, CHR 0xE9, CHR 0xEA, CHR 0xEB, CHR 0xEC, CHR 0xED, CHR 0xEE, CHR 0xEF,
      CHR 0xF0, CHR 0xF1, CHR 0xF2, CHR 0xF3, CHR 0xF4, CHR 0xF5, CHR 0xF6, CHR 0xF8,
      CHR 0xF9, CHR 0xFA, CHR 0xFB, CHR 0xFC, CHR 0xFD, CHR 0xFE]"

definition lower_char :: "char \<Rightarrow> char" where
  "lower_char c = (case map_of (zip upper_letters lower_letters) c of Some u \<Rightarrow> u | None \<Rightarrow> c)"

definition lower :: "string \<Rightarrow> string" where
  "lower s = map lower_char s"

text \<open>
  \<open>str.upper\<close>, which the source applies to the six hex digits the pattern has matched
  and to nothing else: the letters a to z go to A to Z, every other character is kept.
\<close>

definition upper_char :: "char \<Rightarrow> char" where
  "upper_char c =
     (case map_of (zip ''abcdefghijklmnopqrstuvwxyz'' ''ABCDEFGHIJKLMNOPQRSTUVWXYZ'') c of
        Some u \<Rightarrow> u | None \<Rightarrow> c)"

definition upper :: "string \<Rightarrow> string" where
  "upper s = map upper_char s"

text \<open>
  \<open>repr(s)\<close> of a string: in single quotes, or in double quotes when the string has a single
  quote and no double quote; the backslash and the quote used are escaped, TAB, LF and CR
  are written \<open>\t\<close>, \<open>\n\<close>, \<open>\r\<close>, and the other characters that are not printable (U+0000 to
  U+001F, U+007F to U+00A0, U+00AD) as \<open>\x\<close> and two hex digits.
\<close>

definition nonprintable :: "char list" where
  "nonprintable =
     [CHR 0x00, CHR 0x01, CHR 0x02, CHR 0x03, CHR 0x04, CHR 0x05, CHR 0x06, CHR 0x07,
      CHR 0x08, CHR 0x09, CHR 0x0A, CHR 0x0B, CHR 0x0C, CHR 0x0D, CHR 0x0E, CHR 0x0F,
      CHR 0x10, CHR 0x11, CHR 0x12, CHR 0x13, CHR 0x14, CHR 0x15, CHR 0x16, CHR 0x17,
      CHR 0x18, CHR 0x19, CHR 0x1A, CHR 0x1B, CHR 0x1C, CHR 0x1D, CHR 0x1E, CHR 0x1F,
      CHR 0x7F, CHR 0x80, CHR 0x81, CHR 0x82, CHR 0x83, CHR 0x84, CHR 0x85, CHR 0x86,
      CHR 0x87, CHR 0x88, CHR 0x89, CHR 0x8A, CHR 0x8B, CHR 0x8C, CHR 0x8D, CHR 0x8E,
      CHR 0x8F, CHR 0x90, CHR 0x91, CHR 0x92, CHR 0x93, CHR 0x94, CHR 0x95, CHR 0x96,
      CHR 0x97, CHR 0x98, CHR 0x99, CHR 0x9A, CHR 0x9B, CHR 0x9C, CHR 0x9D, CHR 0x9E,
      CHR 0x9F, CHR 0xA0, CHR 0xAD]"

definition hex_digit_char :: "nat \<Rightarrow> char" where
  "hex_digit_char n = ''0123456789abcdef'' ! n"

definition repr_char :: "char \<Rightarrow> char \<Rightarrow> string" where
  "repr_char q c =
     (if c = CHR 0x5C then [CHR 0x5C, CHR 0x5C]
      else if c = q then [CHR 0x5C, q]
      else if c = CHR 0x09 then [CHR 0x5C, CHR ''t'']
      else if c = CHR 0x0A then [CHR 0x5C, CHR ''n'']
      else if c = CHR 0x0D then [CHR 0x5C, CHR ''r'']
      else if c \<in> set nonprintable
        then [CHR 0x5C, CHR ''x'', hex_digit_char (of_char c div 16), hex_digit_char (of_char c mod 16)]
      else [c])"

definition py_repr :: "string \<Rightarrow> string" where
  "py_repr s =
     (let q = (if CHR 0x27 \<in> set s \<and> CHR 0x22 \<notin> set s then CHR 0x22 else CHR 0x27)
      in q # concat (map (repr_char q) s) @ [q])"

section \<open>ColorValidator\<close>

definition is_hex :: "char \<Rightarrow> bool" where
  "is_hex c = (c \<in> set ''0123456789ABCDEFabcdef'')"

text \<open>
  \<open>HEX_PATTERN.match(s)\<close> for the pattern \<^verbatim>\<open>^#?([0-9A-Fa-f]{6})$\<close>: the result is group 1.
  Without the MULTILINE flag \<^verbatim>\<open>$\<close> matches at the end of the string and also just before
  a line feed that ends the string.
\<close>

definition hex_pattern_match :: "string \<Rightarrow> string option" where
  "hex_pattern_match s =
     (let u = (case s of [] \<Rightarrow> [] | c # cs \<Rightarrow> if c = CHR ''#'' then cs else s);
          d = take 6 u;
          r = drop 6 u
      in if length d = 6 \<and> list_all is_hex d \<and> (r = [] \<or> r = [CHR 0x0A])
         then Some d else None)"

definition in_context :: "string \<Rightarrow> string" where
  "in_context context = (if context = [] then [] else '' in '' @ context)"

definition validate :: "string \<Rightarrow> string \<Rightarrow> error + string" where
  "validate color context =
     (if color = [] then Inl (ValueError (''Empty color value'' @ in_context context))
      else case hex_pattern_match (strip color) of
             None \<Rightarrow>
               Inl (ValueError (''Invalid hex color '' @ [CHR 0x27] @ color @ [CHR 0x27]
                      @ in_context context @ [CHR 0x0A]
                      @ ''Expected format: #RRGGBB or RRGGBB (e.g., #ff5f5f or ff5f5f)''))
           | Some d \<Rightarrow> Inr (CHR ''#'' # upper d))"

definition strip_hash :: "string \<Rightarrow> string" where
  "strip_hash color = lstrip_chars ''#'' color"

text \<open>The source's default for \<open>alpha\<close> is \<open>''FF''\<close>; callers of the model pass it.\<close>

definition to_rgba :: "string \<Rightarrow> string \<Rightarrow> string" where
  "to_rgba color alpha = strip_hash color @ alpha"

text \<open>
  The spec's wording of an acceptable input: exactly 6 hex digits, optionally preceded by
  a single leading marker.
\<close>

definition is_hex6 :: "string \<Rightarrow> bool" where
  "is_hex6 d = (length d = 6 \<and> list_all is_hex d)"

definition hex6_optional_marker :: "string \<Rightarrow> bool" where
  "hex6_optional_marker s =
     (is_hex6 s \<or> (case s of [] \<Rightarrow> False | c # d \<Rightarrow> c = CHR ''#'' \<and> is_hex6 d))"

section \<open>Python floats\<close>

text \<open>
  A Python \<open>float\<close> is an IEEE 754 binary64 number. The model has the finite ones, each as
  the rational number it denotes (the sign of a zero plays no part in what follows), and
  every operation computes the exact result and rounds it to the nearest float, ties to
  the even significand. Where a result would be an infinity the model stops with
  \<open>NonFinite\<close>; the source goes on with \<open>inf\<close> or \<open>nan\<close>, which the model does not follow.
\<close>

definition and_then :: "error + 'a \<Rightarrow> ('a \<Rightarrow> error + 'b) \<Rightarrow> error + 'b" where
  "and_then m f = (case m of Inl e \<Rightarrow> Inl e | Inr x \<Rightarrow> f x)"

text \<open>Rounding a rational to the nearest integer, ties to even.\<close>

definition rne :: "rat \<Rightarrow> int" where
  "rne x =
     (let f = \<lfloor>x\<rfloor>; d = x - of_int f
      in if d < 1 / 2 then f else if 1 / 2 < d then f + 1 else if even f then f else f + 1)"

definition pow2 :: "int \<Rightarrow> rat" where
  "pow2 e = (if 0 \<le> e then 2 ^ nat e else 1 / 2 ^ nat (- e))"

text \<open>\<open>int.bit_length\<close> of a positive integer.\<close>

function bit_length :: "int \<Rightarrow> nat" where
  "bit_length n = (if n \<le> 0 then 0 else Suc (bit_length (n div 2)))"
  by pat_completeness auto
termination
  by (relation "measure nat") auto

declare bit_length.simps [simp del]

text \<open>\<open>ilog2 x\<close> is the exponent \<open>e\<close> with \<open>2 ^ e \<le> |x| < 2 ^ (e + 1)\<close>, for \<open>x \<noteq> 0\<close>.\<close>

definition ilog2 :: "rat \<Rightarrow> int" where
  "ilog2 x =
     (let a = \<bar>x\<bar> in
      if 1 \<le> a then int (bit_length \<lfloor>a\<rfloor>) - 1
      else let k = int (bit_length \<lfloor>1 / a\<rfloor>) - 1
           in if pow2 (- k) \<le> a then - k else - k - 1)"

text \<open>
  Rounding to binary64: 53 significant bits, the exponent of a normal number at least
  \<open>-1022\<close> (below that the spacing stays \<open>2 ^ -1074\<close>); a rounded result of magnitude
  \<open>2 ^ 1024\<close> or more is an overflow.
\<close>

definition fround :: "rat \<Rightarrow> error + rat" where
  "fround x =
     (if x = 0 then Inr 0
      else
        let e = max (ilog2 x) (- 1022);
            ulp = pow2 (e - 52);
            y = of_int (rne (x / ulp)) * ulp
        in if y \<noteq> 0 \<and> 1024 \<le> ilog2 y then Inl NonFinite else Inr y)"

definition fadd :: "rat \<Rightarrow> rat \<Rightarrow> error + rat" where
  "fadd x y = fround (x + y)"

definition fsub :: "rat \<Rightarrow> rat \<Rightarrow> error + rat" where
  "fsub x y = fround (x - y)"

definition fmul :: "rat \<Rightarrow> rat \<Rightarrow> error + rat" where
  "fmul x y = fround (x * y)"

definition fdiv :: "rat \<Rightarrow> rat \<Rightarrow> error + rat" where
  "fdiv x y = (if y = 0 then Inl (ZeroDivisionError ''float division by zero'') else fround (x / y))"

text \<open>\<open>int(x)\<close> for a float: the integer part, towards zero.\<close>

definition py_int :: "rat \<Rightarrow> int" where
  "py_int x = (if 0 \<le> x then \<lfloor>x\<rfloor> else \<lceil>x\<rceil>)"

text \<open>
  \<open>x % y\<close> for floats: C's \<open>fmod\<close>, which is exact and has the sign of \<open>x\<close>; a result that
  is not zero and whose sign differs from the sign of \<open>y\<close> gets \<open>y\<close> added, rounded.
\<close>

definition fmod :: "rat \<Rightarrow> rat \<Rightarrow> error + rat" where
  "fmod x y =
     (if y = 0 then Inl (ZeroDivisionError ''float modulo'')
      else
        let m = x - y * of_int (py_int (x / y))
        in if m \<noteq> 0 \<and> ((y < 0) \<noteq> (m < 0)) then fround (m + y) else Inr m)"

section \<open>The \<open>colorsys\<close> module\<close>

text \<open>
  \<open>rgb_to_hls\<close>, \<open>hls_to_rgb\<close> and \<open>_v\<close> of Python's standard library (CPython 3.11 and
  later), operation by operation in the order Python evaluates them.
\<close>

definition ONE_THIRD :: "error + rat" where
  "ONE_THIRD = fdiv 1 3"

definition ONE_SIXTH :: "error + rat" where
  "ONE_SIXTH = fdiv 1 6"

definition TWO_THIRD :: "error + rat" where
  "TWO_THIRD = fdiv 2 3"

definition rgb_to_hls :: "rat \<Rightarrow> rat \<Rightarrow> rat \<Rightarrow> error + rat \<times> rat \<times> rat" where
  "rgb_to_hls r g b =
     (let maxc = max r (max g b); minc = min r (min g b) in
      and_then (fadd maxc minc) (\<lambda>sumc.
      and_then (fsub maxc minc) (\<lambda>rangec.
      and_then (fdiv sumc 2) (\<lambda>l.
      if minc = maxc then Inr (0, l, 0)
      else
        and_then
          (if l \<le> 1 / 2 then fdiv rangec sumc
           else and_then (fsub 2 maxc) (\<lambda>t. and_then (fsub t minc) (\<lambda>u. fdiv rangec u)))
          (\<lambda>s.
        and_then (and_then (fsub maxc r) (\<lambda>t. fdiv t rangec)) (\<lambda>rc.
        and_then (and_then (fsub maxc g) (\<lambda>t. fdiv t rangec)) (\<lambda>gc.
        and_then (and_then (fsub maxc b) (\<lambda>t. fdiv t rangec)) (\<lambda>bc.
        and_then
          (if r = maxc then fsub bc gc
           else if g = maxc then and_then (fadd 2 rc) (\<lambda>t. fsub t bc)
           else and_then (fadd 4 gc) (\<lambda>t. fsub t rc))
          (\<lambda>h.
        and_then (fdiv h 6) (\<lambda>h6.
        and_then (fmod h6 1) (\<lambda>h'. Inr (h', l, s))))))))))))"

definition colorsys_v :: "rat \<Rightarrow> rat \<Rightarrow> rat \<Rightarrow> error + rat" where
  "colorsys_v m1 m2 hue0 =
     and_then (fmod hue0 1) (\<lambda>hue.
     and_then ONE_SIXTH (\<lambda>one_sixth.
     and_then TWO_THIRD (\<lambda>two_third.
     if hue < one_sixth then
       and_then (fsub m2 m1) (\<lambda>d. and_then (fmul d hue) (\<lambda>t. and_then (fmul t 6) (\<lambda>u.
         fadd m1 u)))
     else if hue < 1 / 2 then Inr m2
     else if hue < two_third then
       and_then (fsub m2 m1) (\<lambda>d. and_then (fsub two_third hue) (\<lambda>w.
       and_then (fmul d w) (\<lambda>t. and_then (fmul t 6) (\<lambda>u. fadd m1 u))))
     else Inr m1)))"

definition hls_to_rgb :: "rat \<Rightarrow> rat \<Rightarrow> rat \<Rightarrow> error + rat \<times> rat \<times> rat" where
  "hls_to_rgb h l s =
     (if s = 0 then Inr (l, l, l)
      else
        and_then
          (if l \<le> 1 / 2 then and_then (fadd 1 s) (\<lambda>t. fmul l t)
           else and_then (fadd l s) (\<lambda>t. and_then (fmul l s) (\<lambda>u. fsub t u)))
          (\<lambda>m2.
        and_then (and_then (fmul 2 l) (\<lambda>t. fsub t m2)) (\<lambda>m1.
        and_then ONE_THIRD (\<lambda>one_third.
        and_then (and_then (fadd h one_third) (colorsys_v m1 m2)) (\<lambda>r.
        and_then (colorsys_v m1 m2 h) (\<lambda>g.
        and_then (and_then (fsub h one_third) (colorsys_v m1 m2)) (\<lambda>b.
        Inr (r, g, b))))))))"

section \<open>ColorUtils\<close>

text \<open>
  \<open>int(s, 16)\<close> for a slice \<open>s\<close> of at most two characters, which is all the source passes:
  whitespace at both ends and one sign are accepted before the hex digits. The whitespace
  \<open>int\<close> accepts in such a slice is TAB, LF, VT, FF, CR, the space, NEL and the no-break
  space. (The prefix \<open>0x\<close> and the underscores Python also accepts need three characters
  or more, and so does a slice in which \<open>int\<close> would accept FS, GS, RS or US.)
\<close>

definition int_whitespace :: "char list" where
  "int_whitespace = [CHR 0x09, CHR 0x0A, CHR 0x0B, CHR 0x0C, CHR 0x0D, CHR 0x20, CHR 0x85, CHR 0xA0]"

definition hex_digit_value :: "char \<Rightarrow> int" where
  "hex_digit_value c =
     (case map_of (zip ''0123456789abcdefABCDEF''
                       [0, 1, 2, 3, 4, 5, 6, 7, 8, 9, 10, 11, 12, 13, 14, 15, 10, 11, 12, 13, 14, 15]) c of
        Some v \<Rightarrow> v | None \<Rightarrow> 0)"

definition hex_value :: "string \<Rightarrow> int" where
  "hex_value ds = foldl (\<lambda>acc c. 16 * acc + hex_digit_value c) 0 ds"

definition int_base16 :: "string \<Rightarrow> error + int" where
  "int_base16 s =
     (let t = rstrip_chars int_whitespace (lstrip_chars int_whitespace s);
          neg = prefix ''-'' t;
          ds = (if prefix ''-'' t \<or> prefix ''+'' t then tl t else t)
      in if ds \<noteq> [] \<and> list_all is_hex ds
         then Inr (if neg then - hex_value ds else hex_value ds)
         else Inl (ValueError (''invalid literal for int() with base 16: '' @ py_repr s)))"

text \<open>The format \<open>02x\<close> of an integer: lower-case hex digits, zero-padded to width 2, sign included.\<close>

fun hex_digits :: "nat \<Rightarrow> string" where
  "hex_digits n =
     (if n < 16 then [''0123456789abcdef'' ! n]
      else hex_digits (n div 16) @ [''0123456789abcdef'' ! (n mod 16)])"

declare hex_digits.simps [simp del]

definition format_02x :: "int \<Rightarrow> string" where
  "format_02x n =
     (if n < 0 then CHR ''-'' # hex_digits (nat (- n))
      else let d = hex_digits (nat n) in if length d < 2 then CHR ''0'' # d else d)"

text \<open>
  \<open>lighten\<close> up to the three products \<open>r * 255\<close>, \<open>g * 255\<close>, \<open>b * 255\<close>, and \<open>lighten\<close> itself,
  which takes their integer parts and formats them.
\<close>

definition lighten_channels :: "string \<Rightarrow> rat \<Rightarrow> error + rat \<times> rat \<times> rat" where
  "lighten_channels hex_color amount =
     (let hex_clean = lstrip_chars ''#'' hex_color in
      and_then (int_base16 (take 2 hex_clean)) (\<lambda>r.
      and_then (int_base16 (take 2 (drop 2 hex_clean))) (\<lambda>g.
      and_then (int_base16 (take 2 (drop 4 hex_clean))) (\<lambda>b.
      and_then (fdiv (of_int r) 255) (\<lambda>rf.
      and_then (fdiv (of_int g) 255) (\<lambda>gf.
      and_then (fdiv (of_int b) 255) (\<lambda>bf.
      and_then (rgb_to_hls rf gf bf) (\<lambda>(h, l, s).
      and_then (fadd l amount) (\<lambda>la.
      and_then (hls_to_rgb h (min 1 la) s) (\<lambda>(r', g', b').
      and_then (fmul r' 255) (\<lambda>x.
      and_then (fmul g' 255) (\<lambda>y.
      and_then (fmul b' 255) (\<lambda>z.
      Inr (x, y, z))))))))))))))"

definition lighten :: "string \<Rightarrow> rat \<Rightarrow> error + string" where
  "lighten hex_color amount =
     and_then (lighten_channels hex_color amount) (\<lambda>(x, y, z).
       Inr (CHR ''#'' # format_02x (py_int x) @ format_02x (py_int y) @ format_02x (py_int z)))"

section \<open>Dictionaries and \<open>str.replace\<close>\<close>

text \<open>
  A Python \<open>dict\<close> is an association list in insertion order, with distinct keys.
  \<open>dict_set d k v\<close> is \<open>d[k] = v\<close>: the value of a key already present is replaced where
  the key stands, a new key goes to the end.
\<close>

type_synonym dict = "(string \<times> string) list"

fun dict_set :: "dict \<Rightarrow> string \<Rightarrow> string \<Rightarrow> dict" where
  "dict_set [] k v = [(k, v)]"
| "dict_set ((k', v') # d) k v =
     (if k' = k then (k, v) # d else (k', v') # dict_set d k v)"

definition dict_keys :: "dict \<Rightarrow> string list" where
  "dict_keys d = map fst d"

text \<open>
  \<open>s.replace(old, new)\<close>: the occurrences of \<open>old\<close> are found from left to right and do
  not overlap; the scan goes on after each occurrence, never inside the text put in.
  For an empty \<open>old\<close> Python puts \<open>new\<close> before every character and at the end.
\<close>

fun replace_from :: "string \<Rightarrow> string \<Rightarrow> string \<Rightarrow> string" where
  "replace_from old new [] = []"
| "replace_from old new (c # cs) =
     (if prefix old (c # cs) then new @ replace_from old new (drop (length old - 1) cs)
      else c # replace_from old new cs)"

definition str_replace :: "string \<Rightarrow> string \<Rightarrow> string \<Rightarrow> string" where
  "str_replace s old new =
     (if old = [] then new @ concat (map (\<lambda>c. c # new) s) else replace_from old new s)"

section \<open>OverrideManager\<close>

text \<open>Decimal digits of a line number, as an f-string prints it.\<close>

fun show_nat :: "nat \<Rightarrow> string" where
  "show_nat n =
     (if n < 10 then [''0123456789'' ! n]
      else show_nat (n div 10) @ [''0123456789'' ! (n mod 10)])"

declare show_nat.simps [simp del]

text \<open>
  What \<open>read_overrides\<close> sees of a path: its name, and its text when the file exists.
\<close>

record path =
  file_name :: string
  file_text :: "string option"

text \<open>
  \<open>str.splitlines\<close>: a line ends at LF, VT, FF, CR, FS, GS, RS or NEL (U+0085), and CR LF
  is one line end. (\<open>read_text\<close> has already turned CR LF and CR into LF, which leaves
  the lines the same.) The first argument is the line read so far.
\<close>

definition line_breaks :: "char list" where
  "line_breaks = [CHR 0x0A, CHR 0x0B, CHR 0x0C, CHR 0x0D, CHR 0x1C, CHR 0x1D, CHR 0x1E, CHR 0x85]"

fun splitlines_from :: "string \<Rightarrow> string \<Rightarrow> string list" where
  "splitlines_from cur [] = (if cur = [] then [] else [cur])"
| "splitlines_from cur [c] = (if c \<in> set line_breaks then [cur] else [cur @ [c]])"
| "splitlines_from cur (c # d # ds) =
     (if c = CHR 0x0D \<and> d = CHR 0x0A then cur # splitlines_from [] ds
      else if c \<in> set line_breaks then cur # splitlines_from [] (d # ds)
      else splitlines_from (cur @ [c]) (d # ds))"

definition splitlines :: "string \<Rightarrow> string list" where
  "splitlines s = splitlines_from [] s"

text \<open>
  \<open>str(e)\<close> for an exception. (\<open>NonFinite\<close> is no exception of Python and has no message;
  the source never prints one for it.)
\<close>

fun message :: "error \<Rightarrow> string" where
  "message (ValueError m) = m"
| "message (FileNotFoundError m) = m"
| "message (KeyError k) = py_repr k"
| "message IndexError = ''list index out of range''"
| "message (ZeroDivisionError m) = m"
| "message NonFinite = []"
| "message (SystemExit n) = show_nat n"

text \<open>
  One pass of the loop body of \<open>read_overrides\<close> on the line numbered \<open>line_num\<close>: the line
  is skipped, or it gives an entry for the mapping, or its value fails validation and the
  warning goes to the diagnostic stream.
\<close>

datatype line_result = Skipped | Entry string string | Warning string

definition parse_line :: "string \<Rightarrow> nat \<Rightarrow> string \<Rightarrow> line_result" where
  "parse_line fname line_num raw =
     (let line = strip raw in
      if line = [] \<or> prefix ''#'' line then Skipped
      else if CHR ''='' \<notin> set line then Skipped
      else
        let key = strip (takeWhile (\<lambda>c. c \<noteq> CHR ''='') line);
            val = strip (tl (dropWhile (\<lambda>c. c \<noteq> CHR ''='') line))
        in if key = [] \<or> val = [] then Skipped
           else case validate val (fname @ '' line '' @ show_nat line_num) of
                  Inr v \<Rightarrow> Entry key v
                | Inl e \<Rightarrow> Warning (''Warning: '' @ message e))"

text \<open>
  The loop over the lines. \<open>n\<close> is \<open>line_num\<close> before the line is read; the state is the
  mapping built so far and the warnings written so far.
\<close>

fun read_lines :: "string \<Rightarrow> nat \<Rightarrow> string list \<Rightarrow> dict \<times> string list \<Rightarrow> dict \<times> string list" where
  "read_lines fname n [] st = st"
| "read_lines fname n (l # ls) (overrides, warnings) =
     (case parse_line fname (Suc n) l of
        Skipped \<Rightarrow> read_lines fname (Suc n) ls (overrides, warnings)
      | Entry key v \<Rightarrow> read_lines fname (Suc n) ls (dict_set overrides key v, warnings)
      | Warning w \<Rightarrow> read_lines fname (Suc n) ls (overrides, warnings @ [w]))"

definition read_overrides :: "path \<Rightarrow> dict \<times> string list" where
  "read_overrides filepath =
     (case file_text filepath of
        None \<Rightarrow> ([], [])
      | Some txt \<Rightarrow> read_lines (file_name filepath) 0 (splitlines txt) ([], []))"

definition semantic_key :: "string \<Rightarrow> string" where
  "semantic_key key = lower (str_replace key ''IDA_'' [])"

text \<open>One of the two loops of \<open>apply_overrides\<close> over the items of an override mapping.\<close>

fun apply_entries :: "dict \<Rightarrow> dict \<Rightarrow> dict" where
  "apply_entries result [] = result"
| "apply_entries result ((key, v) # rest) =
     apply_entries
       (if semantic_key key \<in> set (dict_keys result)
        then dict_set result (semantic_key key) v else result)
       rest"

text \<open>
  \<open>apply_overrides\<close> returns the merged mapping; the model also returns the warnings the two
  reads wrote to the diagnostic stream. The progress lines of the verbose mode (standard
  output) are not modelled.
\<close>

definition apply_overrides :: "path \<Rightarrow> path \<Rightarrow> dict \<Rightarrow> dict \<times> string list" where
  "apply_overrides global_path per_theme_path defaults =
     (let (global_overrides, w1) = read_overrides global_path;
          result = apply_entries defaults global_overrides;
          (per_theme_overrides, w2) = read_overrides per_theme_path;
          result = apply_entries result per_theme_overrides
      in (result, w1 @ w2))"

text \<open>
  \<open>override_for overrides k\<close> is the value the loop of \<open>apply_overrides\<close> leaves for the key
  \<open>k\<close>: that of the last entry of the override mapping whose raw key the code maps to \<open>k\<close>.
\<close>

definition override_for :: "dict \<Rightarrow> string \<Rightarrow> string option" where
  "override_for overrides k =
     (case filter (\<lambda>kv. semantic_key (fst kv) = k) overrides of
        [] \<Rightarrow> None
      | x # xs \<Rightarrow> Some (snd (last (x # xs))))"

text \<open>
  The spec's wording of the key rule, for claims C5 and C6: the prefix \<open>IDA_\<close> is stripped
  from the raw key only where the key starts with it, once, and the rest is put in lower
  case; and the override that maps to a semantic key under this rule.
\<close>

definition semantic_key_prefix_only :: "string \<Rightarrow> string" where
  "semantic_key_prefix_only key = lower (if prefix ''IDA_'' key then drop 4 key else key)"

definition override_for_prefix_only :: "dict \<Rightarrow> string \<Rightarrow> string option" where
  "override_for_prefix_only overrides k =
     (case filter (\<lambda>kv. semantic_key_prefix_only (fst kv) = k) overrides of
        [] \<Rightarrow> None
      | x # xs \<Rightarrow> Some (snd (last (x # xs))))"

text \<open>
  The line \<open>read_overrides\<close> writes to the diagnostic stream for the value \<open>val\<close> that
  fails validation on line \<open>line_num\<close> of the file named \<open>fname\<close>: \<open>Warning:\<close> and the message
  of \<open>validate\<close>.
\<close>

definition invalid_line_warning :: "string \<Rightarrow> nat \<Rightarrow> string \<Rightarrow> string" where
  "invalid_line_warning fname line_num val =
     ''Warning: Invalid hex color '' @ [CHR 0x27] @ val @ [CHR 0x27]
     @ '' in '' @ fname @ '' line '' @ show_nat line_num @ [CHR 0x0A]
     @ ''Expected format: #RRGGBB or RRGGBB (e.g., #ff5f5f or ff5f5f)''"

text \<open>An override file with one line whose value is not a colour.\<close>

definition example_overrides :: path where
  "example_overrides =
     \<lparr>file_name = ''overrides.conf'',
      file_text = Some (''IDA_ACCENT=445566'' @ [CHR 0x0A] @ '' IDA_FOO = zzzzzz '' @ [CHR 0x0A]
                        @ ''IDA_INFO=#abcdef'')\<rparr>"

section \<open>Template rendering\<close>

definition placeholder :: "string \<Rightarrow> string" where
  "placeholder key = ''{'' @ key @ ''}''"

text \<open>
  The loop of \<open>render_template\<close> over \<open>data.items()\<close>; the values are strings, so \<open>str(value)\<close>
  is the value.
\<close>

fun render_content :: "string \<Rightarrow> dict \<Rightarrow> string" where
  "render_content content [] = content"
| "render_content content ((key, v) # rest) =
     render_content (str_replace content (placeholder key) v) rest"

text \<open>
  \<open>templates\<close> gives the text of the template files that exist in the templates directory.
  The path in the error message is represented by the template's name.
\<close>

definition render_template :: "(string \<Rightarrow> string option) \<Rightarrow> string \<Rightarrow> dict \<Rightarrow> error + string" where
  "render_template templates template_name data =
     (case templates template_name of
        None \<Rightarrow> Inl (FileNotFoundError (''Template not found: '' @ template_name))
      | Some content \<Rightarrow> Inr (render_content content data))"

section \<open>The floats of the grey channel values\<close>







text \<open>The hex digits of a canonical colour, and a colour with three equal channels.\<close>

definition upper_hex :: "char list" where
  "upper_hex = ''0123456789ABCDEF''"


text \<open>
  The spec's wording of the last step of \<open>lighten\<close>, for claim C3: each channel rounded to
  the nearest integer, and the result in the canonical form, with upper-case hex digits.
\<close>

definition lighten_rounding :: "string \<Rightarrow> rat \<Rightarrow> error + string" where
  "lighten_rounding hex_color amount =
     and_then (lighten_channels hex_color amount) (\<lambda>(x, y, z).
       Inr (CHR ''#'' # upper (format_02x (rne x) @ format_02x (rne y) @ format_02x (rne z))))"

definition lower_hex :: "char list" where
  "lower_hex = ''0123456789abcdef''"

section \<open>ThemeBuilder\<close>

text \<open>
  \<open>theme.json\<close> as parsed: an object whose keys \<open>background\<close>, \<open>foreground\<close> and \<open>colors\<close> may
  be absent. What the builder reads: the two JSON documents as parsed (\<open>None\<close> when the file
  does not exist), the two override files, and the text of the template files that exist.
  A JSON document that does not parse is outside the model, and so are the progress lines
  of the verbose mode. In the messages a path is represented by the name of its file.
\<close>

record theme =
  theme_background :: "string option"
  theme_foreground :: "string option"
  theme_colors :: "string list option"

record builder =
  theme_json :: "theme option"
  semantic_json :: "dict option"
  global_overrides :: path
  per_theme_overrides :: path
  templates :: "string \<Rightarrow> string option"

text \<open>\<open>d[k]\<close> for a dictionary and for a key of \<open>theme.json\<close>, and \<open>xs[i]\<close> for a list.\<close>

definition getitem :: "dict \<Rightarrow> string \<Rightarrow> error + string" where
  "getitem d k = (case map_of d k of None \<Rightarrow> Inl (KeyError k) | Some v \<Rightarrow> Inr v)"

definition theme_item :: "string \<Rightarrow> 'a option \<Rightarrow> error + 'a" where
  "theme_item k v = (case v of None \<Rightarrow> Inl (KeyError k) | Some x \<Rightarrow> Inr x)"

definition list_item :: "'a list \<Rightarrow> nat \<Rightarrow> error + 'a" where
  "list_item xs i = (if i < length xs then Inr (xs ! i) else Inl IndexError)"

text \<open>
  The five generators. Each returns the name of the file it writes and the text written;
  the entries of \<open>template_data\<close> are evaluated in the order of the source.
\<close>

definition generate_fish_theme :: "(string \<Rightarrow> string option) \<Rightarrow> theme \<Rightarrow> dict \<Rightarrow> error + string \<times> string" where
  "generate_fish_theme tmpls th semantic =
     and_then (theme_item ''foreground'' (theme_foreground th)) (\<lambda>fg.
     and_then (getitem semantic ''urgent'') (\<lambda>urgent.
     and_then (theme_item ''colors'' (theme_colors th)) (\<lambda>colors.
     and_then (list_item colors 8) (\<lambda>color8.
     and_then
       (render_template tmpls ''fish-theme.fish.tmpl''
          [(''fg'', strip_hash fg), (''urgent'', strip_hash urgent), (''color8'', strip_hash color8)])
       (\<lambda>content. Inr (''fish-theme.fish'', content))))))"

definition generate_wofi_colors :: "(string \<Rightarrow> string option) \<Rightarrow> theme \<Rightarrow> dict \<Rightarrow> error + string \<times> string" where
  "generate_wofi_colors tmpls th semantic =
     and_then (theme_item ''background'' (theme_background th)) (\<lambda>bg.
     and_then (and_then (fround (8 / 100)) (lighten bg)) (\<lambda>bg_alt.
     and_then (and_then (fround (18 / 100)) (lighten bg)) (\<lambda>bg_hover.
     and_then (theme_item ''foreground'' (theme_foreground th)) (\<lambda>fg.
     and_then (getitem semantic ''accent'') (\<lambda>accent.
     and_then (theme_item ''colors'' (theme_colors th)) (\<lambda>colors.
     and_then (list_item colors 5) (\<lambda>color5.
     and_then (getitem semantic ''urgent'') (\<lambda>urgent.
     and_then (getitem semantic ''warning'') (\<lambda>warning.
     and_then (getitem semantic ''success'') (\<lambda>success.
     and_then (getitem semantic ''info'') (\<lambda>info.
     and_then
       (render_template tmpls ''wofi-colors.css.tmpl''
          [(''bg'', bg), (''bg_alt'', bg_alt), (''bg_hover'', bg_hover), (''fg'', fg),
           (''accent'', accent), (''color5'', color5), (''urgent'', urgent),
           (''warning'', warning), (''success'', success), (''info'', info)])
       (\<lambda>content. Inr (''wofi-colors.css'', content)))))))))))))"

definition generate_semantic_conf :: "(string \<Rightarrow> string option) \<Rightarrow> dict \<Rightarrow> error + string \<times> string" where
  "generate_semantic_conf tmpls semantic =
     and_then (getitem semantic ''accent'') (\<lambda>accent.
     and_then (getitem semantic ''accent2'') (\<lambda>accent2.
     and_then (getitem semantic ''warning'') (\<lambda>warning.
     and_then (getitem semantic ''urgent'') (\<lambda>urgent.
     and_then
       (render_template tmpls ''ida-semantic.conf.tmpl''
          [(''accent_rgba'', to_rgba accent ''FF''), (''accent2_rgba'', to_rgba accent2 ''FF''),
           (''warning_rgba'', to_rgba warning ''FF''), (''urgent_rgba'', to_rgba urgent ''FF'')])
       (\<lambda>content. Inr (''ida-semantic.conf'', content))))))"

definition generate_semantic_css :: "(string \<Rightarrow> string option) \<Rightarrow> dict \<Rightarrow> error + string \<times> string" where
  "generate_semantic_css tmpls semantic =
     and_then (render_template tmpls ''ida-semantic.css.tmpl'' semantic)
       (\<lambda>content. Inr (''ida-semantic.css'', content))"

definition generate_semantic_fish :: "(string \<Rightarrow> string option) \<Rightarrow> dict \<Rightarrow> error + string \<times> string" where
  "generate_semantic_fish tmpls semantic =
     and_then (render_template tmpls ''ida-semantic.fish.tmpl'' semantic)
       (\<lambda>content. Inr (''ida-semantic.fish'', content))"

text \<open>
  The loop of \<open>build\<close> that validates the merged semantic colours: each value is replaced
  by what \<open>validate\<close> returns for it, and the first failure ends the loop.
\<close>

fun validate_items :: "dict \<Rightarrow> error + dict" where
  "validate_items [] = Inr []"
| "validate_items ((key, v) # rest) =
     and_then (validate v (''semantic.'' @ key)) (\<lambda>v'.
     and_then (validate_items rest) (\<lambda>rest'. Inr ((key, v') # rest')))"

text \<open>
  The generators run in order; the files written before an exception stay written. The
  result of \<open>build\<close>: the files written, in order, the lines on the diagnostic stream, and
  the exception that ended the build, if any. A value that fails validation ends it with
  \<open>Error:\<close> and the message on the diagnostic stream and the exit status 1.
\<close>

fun write_all :: "(error + string \<times> string) list \<Rightarrow> (string \<times> string) list \<times> error option" where
  "write_all [] = ([], None)"
| "write_all (Inl e # steps) = ([], Some e)"
| "write_all (Inr f # steps) = (case write_all steps of (fs, r) \<Rightarrow> (f # fs, r))"

record build_result =
  written :: "(string \<times> string) list"
  diagnostics :: "string list"
  raised :: "error option"

definition build :: "builder \<Rightarrow> build_result" where
  "build b =
     (case theme_json b of
        None \<Rightarrow>
          \<lparr>written = [], diagnostics = [],
           raised = Some (FileNotFoundError ''Theme file not found: theme.json'')\<rparr>
      | Some th \<Rightarrow>
          (case semantic_json b of
             None \<Rightarrow>
               \<lparr>written = [], diagnostics = [],
                raised = Some (FileNotFoundError ''Semantic file not found: semantic.json'')\<rparr>
           | Some defaults \<Rightarrow>
               (case apply_overrides (global_overrides b) (per_theme_overrides b) defaults of
                  (merged, warnings) \<Rightarrow>
                    (case validate_items merged of
                       Inl e \<Rightarrow>
                         \<lparr>written = [], diagnostics = warnings @ [''Error: '' @ message e],
                          raised = Some (SystemExit 1)\<rparr>
                     | Inr semantic \<Rightarrow>
                         (case write_all
                                 [generate_fish_theme (templates b) th semantic,
                                  generate_wofi_colors (templates b) th semantic,
                                  generate_semantic_conf (templates b) semantic,
                                  generate_semantic_css (templates b) semantic,
                                  generate_semantic_fish (templates b) semantic] of
                            (files, r) \<Rightarrow>
                              \<lparr>written = files, diagnostics = warnings, raised = r\<rparr>)))))"

text \<open>
  An example build: \<open>semantic.json\<close> gives the colours in lower case and without the
  marker, there are no override files, and each template is one placeholder.
\<close>

definition example_semantic :: dict where
  "example_semantic =
     [(''urgent'', ''ff5f5f''), (''warning'', ''ffaf5f''), (''success'', ''5fff87''),
      (''info'', ''5fafff''), (''accent'', ''89b4fa''), (''accent2'', ''cba6f7'')]"

definition example_templates :: "string \<Rightarrow> string option" where
  "example_templates =
     map_of [(''fish-theme.fish.tmpl'', ''{fg}''), (''wofi-colors.css.tmpl'', ''{bg_alt}''),
             (''ida-semantic.conf.tmpl'', ''{accent_rgba}''), (''ida-semantic.css.tmpl'', ''{accent}''),
             (''ida-semantic.fish.tmpl'', ''set accent {accent}'')]"

definition example_builder :: builder where
  "example_builder =
     \<lparr>theme_json = Some \<lparr>theme_background = Some ''#000000'', theme_foreground = Some ''#FFFFFF'',
                          theme_colors = Some (replicate 16 ''#808080'')\<rparr>,
      semantic_json = Some example_semantic,
      global_overrides = \<lparr>file_name = ''overrides.conf'', file_text = None\<rparr>,
      per_theme_overrides = \<lparr>file_name = ''overrides.conf'', file_text = None\<rparr>,
      templates = example_templates\<rparr>"

section \<open>Facts about stripping\<close>

lemma lstrip_chars_decomp:
  "\<exists>p. s = p @ lstrip_chars chars s \<and> set p \<subseteq> set chars"
proof -
  have "s = takeWhile (\<lambda>c. c \<in> set chars) s @ lstrip_chars chars s"
    by (simp add: lstrip_chars_def)
  moreover have "set (takeWhile (\<lambda>c. c \<in> set chars) s) \<subseteq> set chars"
    by (auto dest: set_takeWhileD)
  ultimately show ?thesis by blast
qed

lemma lstrip_chars_head:
  "lstrip_chars chars s = c # cs \<Longrightarrow> c \<notin> set chars"
  unfolding lstrip_chars_def by (metis hd_dropWhile list.distinct(1) list.sel(1))

lemma rstrip_chars_last:
  "rstrip_chars chars s = cs @ [c] \<Longrightarrow> c \<notin> set chars"
proof -
  assume "rstrip_chars chars s = cs @ [c]"
  then have "dropWhile (\<lambda>c. c \<in> set chars) (rev s) = c # rev cs"
    unfolding rstrip_chars_def by (metis rev.simps(2) rev_rev_ident rev_swap)
  then show ?thesis
    by (metis hd_dropWhile list.distinct(1) list.sel(1))
qed

lemma strip_no_trailing_space:
  "strip s = cs @ [c] \<Longrightarrow> \<not> is_space c"
  unfolding strip_def is_space_def by (rule rstrip_chars_last)

lemma upper_hex_table: "list_all (\<lambda>c. is_hex (upper_char c)) ''0123456789ABCDEFabcdef''"
  by code_simp

lemma is_hex_upper_char: "is_hex c \<Longrightarrow> is_hex (upper_char c)"
proof -
  assume "is_hex c"
  then have "c \<in> set ''0123456789ABCDEFabcdef''" unfolding is_hex_def .
  with upper_hex_table show ?thesis unfolding list_all_iff by (rule bspec)
qed

lemma is_hex_not_hash: "is_hex c \<Longrightarrow> c \<noteq> CHR ''#''"
  by (auto simp: is_hex_def)

lemma is_hex6_upper: "is_hex6 d \<Longrightarrow> is_hex6 (upper d)"
  by (auto simp: is_hex6_def upper_def list_all_iff is_hex_upper_char)

lemma strip_hash_is_hex6: "is_hex6 d \<Longrightarrow> strip_hash d = d"
  by (cases d) (auto simp: is_hex6_def strip_hash_def lstrip_chars_def is_hex_not_hash)

lemma strip_hash_marker_hex6: "is_hex6 d \<Longrightarrow> strip_hash (CHR ''#'' # d) = d"
  using strip_hash_is_hex6 [of d] by (simp add: strip_hash_def lstrip_chars_def)

lemma hex_pattern_match_Some:
  "hex_pattern_match s = Some d \<Longrightarrow> is_hex6 d"
  by (auto simp: hex_pattern_match_def Let_def is_hex6_def split: if_splits)

lemma validate_Inr_form:
  assumes "validate color context = Inr c"
  shows "\<exists>d. is_hex6 d \<and> hex_pattern_match (strip color) = Some d \<and> c = CHR ''#'' # upper d"
  using assms
  by (auto simp: validate_def hex_pattern_match_Some split: if_splits option.splits)

section \<open>\<open>strip_hash\<close> removes every leading marker\<close>

lemma strip_hash_decomp:
  "\<exists>n. s = replicate n (CHR ''#'') @ strip_hash s"
proof -
  obtain p where p: "s = p @ strip_hash s" "set p \<subseteq> set ''#''"
    using lstrip_chars_decomp [of s "''#''"] unfolding strip_hash_def by blast
  from p(2) have "p = replicate (length p) (CHR ''#'')"
    by (induction p) auto
  with p(1) show ?thesis by metis
qed

lemma strip_hash_no_marker: "\<not> prefix ''#'' (strip_hash s)"
proof
  assume "prefix ''#'' (strip_hash s)"
  then obtain cs where "strip_hash s = CHR ''#'' # cs"
    by (auto simp: prefix_def)
  then show False
    unfolding strip_hash_def using lstrip_chars_head by fastforce
qed

lemma suffix_replicate_append:
  assumes "suffix t (replicate n c @ r)" and "length r < length t"
  shows "prefix [c] t"
  using assms
proof (induction n)
  case 0
  then show ?case by (auto dest: suffix_length_le)
next
  case (Suc n)
  from Suc.prems(1) have "t = c # replicate n c @ r \<or> suffix t (replicate n c @ r)"
    by (simp add: suffix_Cons)
  then show ?case using Suc by auto
qed

text \<open>
  Claim C10: \<open>strip_hash\<close> is total and removes every leading marker, not just one: the
  result is a suffix of the input that does not start with \<open>#\<close>, no longer suffix of the
  input has that property, and an input that does not start with \<open>#\<close> comes back
  unchanged.
\<close>

theorem strip_hash_longest_suffix:
  "suffix (strip_hash s) s
   \<and> \<not> prefix ''#'' (strip_hash s)
   \<and> (\<forall>t. suffix t s \<and> \<not> prefix ''#'' t \<longrightarrow> length t \<le> length (strip_hash s))
   \<and> (\<not> prefix ''#'' s \<longrightarrow> strip_hash s = s)"
proof -
  obtain n where n: "s = replicate n (CHR ''#'') @ strip_hash s"
    using strip_hash_decomp by blast
  have a: "suffix (strip_hash s) s"
    using n by (metis suffixI)
  have c: "length t \<le> length (strip_hash s)" if "suffix t s" "\<not> prefix ''#'' t" for t
  proof (rule ccontr)
    assume "\<not> length t \<le> length (strip_hash s)"
    then have "length (strip_hash s) < length t" by simp
    moreover have "suffix t (replicate n (CHR ''#'') @ strip_hash s)"
      using that(1) n by simp
    ultimately have "prefix ''#'' t" by (rule suffix_replicate_append [rotated])
    with that(2) show False by simp
  qed
  have d: "strip_hash s = s" if "\<not> prefix ''#'' s"
    using that by (cases s) (auto simp: strip_hash_def lstrip_chars_def)
  from a strip_hash_no_marker c d show ?thesis by blast
qed

theorem strip_hash_longest_suffix_witness:
  "strip_hash ''##AABBCC'' = ''AABBCC''
   \<and> suffix ''AABBCC'' ''##AABBCC'' \<and> \<not> prefix ''#'' ''AABBCC''
   \<and> length ''#AABBCC'' > length (strip_hash ''##AABBCC'')
   \<and> strip_hash ''AABBCC'' = ''AABBCC''"
  using strip_hash_longest_suffix [of "''##AABBCC''"] strip_hash_longest_suffix [of "''AABBCC''"]
  by (simp add: strip_hash_def lstrip_chars_def suffix_def)

section \<open>What \<open>validate\<close> accepts\<close>

lemma hex_pattern_match_accepts:
  assumes "hex6_optional_marker t"
  shows "hex_pattern_match t = Some (strip_hash t)"
proof (cases "is_hex6 t")
  case True
  then obtain c cs where t: "t = c # cs" by (cases t) (auto simp: is_hex6_def)
  with True have "c \<noteq> CHR ''#''" by (auto simp: is_hex6_def is_hex_not_hash)
  with True t show ?thesis
    by (simp add: hex_pattern_match_def strip_hash_is_hex6) (simp add: is_hex6_def)
next
  case False
  with assms obtain d where t: "t = CHR ''#'' # d" and d: "is_hex6 d"
    by (auto simp: hex6_optional_marker_def split: list.splits)
  then show ?thesis
    by (simp add: hex_pattern_match_def strip_hash_marker_hex6) (simp add: is_hex6_def)
qed

lemma hex_pattern_match_rejects:
  assumes "hex_pattern_match t = Some d" and "\<And>cs. t \<noteq> cs @ [CHR 0x0A]"
  shows "hex6_optional_marker t"
proof -
  define u where "u = (case t of [] \<Rightarrow> [] | c # cs \<Rightarrow> if c = CHR ''#'' then cs else t)"
  from assms(1) have h: "is_hex6 (take 6 u)" "drop 6 u = [] \<or> drop 6 u = [CHR 0x0A]"
    by (auto simp: hex_pattern_match_def Let_def u_def is_hex6_def split: if_splits)
  have tu: "t = u \<or> t = CHR ''#'' # u"
    by (cases t) (auto simp: u_def)
  have "drop 6 u \<noteq> [CHR 0x0A]"
  proof
    assume a: "drop 6 u = [CHR 0x0A]"
    have "u = take 6 u @ drop 6 u" by simp
    with a have "u = take 6 u @ [CHR 0x0A]" by simp
    with tu have "t = take 6 u @ [CHR 0x0A] \<or> t = (CHR ''#'' # take 6 u) @ [CHR 0x0A]"
      by auto
    with assms(2) show False by blast
  qed
  with h(2) have "drop 6 u = []" by simp
  then have "take 6 u = u" by simp
  with h(1) have "is_hex6 u" by simp
  with tu show ?thesis by (auto simp: hex6_optional_marker_def)
qed

lemma strip_no_trailing_newline: "strip s \<noteq> cs @ [CHR 0x0A]"
proof
  assume "strip s = cs @ [CHR 0x0A]"
  then have "\<not> is_space (CHR 0x0A)" by (rule strip_no_trailing_space)
  then show False by (simp add: is_space_def whitespace_def)
qed

lemma hex6_optional_marker_nonempty: "hex6_optional_marker t \<Longrightarrow> t \<noteq> []"
  by (auto simp: hex6_optional_marker_def is_hex6_def)

lemma strip_Nil: "strip [] = []"
  by (simp add: strip_def rstrip_chars_def lstrip_chars_def)

text \<open>
  Claim C9, as amended: \<open>validate\<close> trims surrounding whitespace first. An input whose
  trimmed form is exactly 6 hex digits, optionally preceded by a single marker, is accepted
  and normalised; every other input fails with a \<open>ValueError\<close>.
\<close>

theorem validate_trimmed_form:
  "(hex6_optional_marker (strip color) \<longrightarrow>
      validate color context = Inr (CHR ''#'' # upper (strip_hash (strip color))))
   \<and> (\<not> hex6_optional_marker (strip color) \<longrightarrow>
      (\<exists>msg. validate color context = Inl (ValueError msg)))"
proof (intro conjI impI)
  assume a: "hex6_optional_marker (strip color)"
  then have "color \<noteq> []" using hex6_optional_marker_nonempty strip_Nil by fastforce
  with hex_pattern_match_accepts [OF a] show
    "validate color context = Inr (CHR ''#'' # upper (strip_hash (strip color)))"
    by (simp add: validate_def)
next
  assume a: "\<not> hex6_optional_marker (strip color)"
  have "hex_pattern_match (strip color) = None"
  proof (cases "hex_pattern_match (strip color)")
    case (Some d)
    then have "hex6_optional_marker (strip color)"
      by (rule hex_pattern_match_rejects) (rule strip_no_trailing_newline)
    with a show ?thesis by simp
  qed simp
  then show "\<exists>msg. validate color context = Inl (ValueError msg)"
    by (simp add: validate_def)
qed

lemma strip_ex1: "strip ''  #aabbcc '' = ''#aabbcc''"
  by code_simp

lemma strip_ex2: "strip ''zzzzzz'' = ''zzzzzz''"
  by code_simp

theorem validate_trimmed_form_witness:
  "hex6_optional_marker (strip ''  #aabbcc '')
   \<and> validate ''  #aabbcc '' ''semantic.accent'' = Inr ''#AABBCC''
   \<and> \<not> hex6_optional_marker (strip ''zzzzzz'')
   \<and> (\<exists>msg. validate ''zzzzzz'' ''overrides.conf line 1'' = Inl (ValueError msg))"
proof -
  have a: "hex6_optional_marker (strip ''  #aabbcc '')" by code_simp
  have b: "\<not> hex6_optional_marker (strip ''zzzzzz'')" by code_simp
  have c: "CHR ''#'' # upper (strip_hash (strip ''  #aabbcc '')) = ''#AABBCC''" by code_simp
  from a b c validate_trimmed_form [of "''  #aabbcc ''" "''semantic.accent''"]
    validate_trimmed_form [of "''zzzzzz''" "''overrides.conf line 1''"]
  show ?thesis by simp
qed

text \<open>
  Claim C9 as stated fails: the input \<open>'' AABBCC''\<close> starts with a space, so it is not
  exactly 6 hex digits after an optional marker, and \<open>validate\<close> returns a colour for it.
\<close>

theorem validate_padded_counterexample:
  "\<not> hex6_optional_marker '' AABBCC'' \<and> validate '' AABBCC'' [] = Inr ''#AABBCC''"
  by code_simp

section \<open>Marker stripping and the alpha suffix\<close>

text \<open>
  Claim C1 as stated fails: \<open>to_rgba\<close> appends the alpha digits, so stripping the
  marker again gives 8 characters, not the 6 digits of the colour.
\<close>

theorem alpha_roundtrip_counterexample:
  "validate ''#aabbcc'' [] = Inr ''#AABBCC''
   \<and> strip_hash (to_rgba (strip_hash ''#AABBCC'') ''FF'') = ''AABBCCFF''
   \<and> strip_hash (to_rgba (strip_hash ''#AABBCC'') ''FF'') \<noteq> ''AABBCC''"
  by code_simp

text \<open>
  Claim C1, as amended: for a validated colour \<open>c\<close>, stripping the marker, adding the
  alpha suffix and stripping the marker again gives the 6 digits of \<open>c\<close> followed by the
  2 alpha digits: 8 characters, whose first 6 are the digits of \<open>c\<close>.
\<close>

theorem alpha_roundtrip_appends:
  assumes "validate x context = Inr c"
  shows "is_hex6 (strip_hash c) \<and> c = CHR ''#'' # strip_hash c
         \<and> strip_hash (to_rgba (strip_hash c) ''FF'') = strip_hash c @ ''FF''
         \<and> length (strip_hash (to_rgba (strip_hash c) ''FF'')) = 8
         \<and> take 6 (strip_hash (to_rgba (strip_hash c) ''FF'')) = strip_hash c"
proof -
  from assms obtain d where d: "is_hex6 d" "c = CHR ''#'' # upper d"
    using validate_Inr_form by blast
  then have u: "is_hex6 (upper d)" by (simp add: is_hex6_upper)
  then have s: "strip_hash c = upper d" using d(2) by (simp add: strip_hash_marker_hex6)
  from u obtain a as where "upper d = a # as" "a \<noteq> CHR ''#''"
    by (cases "upper d") (auto simp: is_hex6_def is_hex_not_hash)
  then have r: "strip_hash (upper d @ ''FF'') = upper d @ ''FF''"
    by (simp add: strip_hash_def lstrip_chars_def)
  have l: "length (upper d) = 6" using u by (simp add: is_hex6_def)
  from s u d(2) r l show ?thesis
    by (simp add: to_rgba_def strip_hash_is_hex6)
qed

theorem alpha_roundtrip_appends_witness:
  "validate ''89b4fa'' ''semantic.accent'' = Inr ''#89B4FA''
   \<and> strip_hash (to_rgba (strip_hash ''#89B4FA'') ''FF'') = ''89B4FAFF''"
proof -
  have v: "validate ''89b4fa'' ''semantic.accent'' = Inr ''#89B4FA''" by code_simp
  have e: "strip_hash ''#89B4FA'' = ''89B4FA''" by code_simp
  from alpha_roundtrip_appends [OF v] v e show ?thesis by simp
qed

section \<open>Override precedence\<close>

lemma map_of_dict_set: "map_of (dict_set d k v) = (map_of d)(k \<mapsto> v)"
  by (induction d) (auto simp: fun_eq_iff)

lemma dict_keys_dict_set:
  "k \<in> set (dict_keys d) \<Longrightarrow> dict_keys (dict_set d k v) = dict_keys d"
  by (induction d) (force simp: dict_keys_def)+

lemma dict_keys_map_of: "k \<in> set (dict_keys d) \<longleftrightarrow> map_of d k \<noteq> None"
  by (induction d) (auto simp: dict_keys_def)

lemma dict_keys_apply_entries: "dict_keys (apply_entries d ovs) = dict_keys d"
  by (induction d ovs rule: apply_entries.induct) (simp_all add: dict_keys_dict_set)

lemma override_for_Cons:
  "override_for ((key, v) # rest) k =
     (case override_for rest k of
        Some p \<Rightarrow> Some p
      | None \<Rightarrow> if semantic_key key = k then Some v else None)"
  by (auto simp: override_for_def split: list.splits)

lemma map_of_apply_entries:
  "map_of (apply_entries d ovs) k =
     (case map_of d k of
        None \<Rightarrow> None
      | Some x \<Rightarrow> Some (case override_for ovs k of Some p \<Rightarrow> p | None \<Rightarrow> x))"
proof (induction d ovs rule: apply_entries.induct)
  case (1 result)
  then show ?case by (simp add: override_for_def split: option.splits)
next
  case (2 result key v rest)
  show ?case
    unfolding apply_entries.simps "2.IH" override_for_Cons
    by (auto simp: map_of_dict_set dict_keys_map_of split: option.splits)
qed

lemma override_for_agree:
  assumes "list_all (\<lambda>kv. semantic_key (fst kv) = semantic_key_prefix_only (fst kv)) ovs"
  shows "override_for_prefix_only ovs k = override_for ovs k"
proof -
  from assms have "filter (\<lambda>kv. semantic_key_prefix_only (fst kv) = k) ovs
      = filter (\<lambda>kv. semantic_key (fst kv) = k) ovs"
    by (intro filter_cong) (auto simp: list_all_iff)
  then show ?thesis by (simp add: override_for_def override_for_prefix_only_def)
qed

text \<open>
  Claim C5, as amended: for a key \<open>k\<close> of the defaults with value \<open>d\<close>, the merged value is the
  per-theme override that maps to \<open>k\<close> if there is one, else the global override that maps
  to \<open>k\<close> if there is one, else \<open>d\<close>, where an override maps to \<open>k\<close> when its raw key with every
  occurrence of \<open>IDA_\<close> removed, in lower case, is \<open>k\<close> (the last such entry of a mapping when
  there are several). Where this rule and the spec's prefix rule give every raw key of the
  two override mappings the same semantic key, the same holds with the prefix rule. The
  witness is the spec's example: default \<open>accent=#112233\<close>, global override
  \<open>IDA_ACCENT=445566\<close>, no per-theme file.
\<close>

theorem override_precedence:
  assumes "map_of defaults k = Some d"
      and "read_overrides global_path = (g, w1)"
      and "read_overrides per_theme_path = (p, w2)"
  shows "map_of (fst (apply_overrides global_path per_theme_path defaults)) k =
           Some (case override_for p k of
                   Some pv \<Rightarrow> pv
                 | None \<Rightarrow> (case override_for g k of Some gv \<Rightarrow> gv | None \<Rightarrow> d))
         \<and> (list_all (\<lambda>kv. semantic_key (fst kv) = semantic_key_prefix_only (fst kv)) (g @ p) \<longrightarrow>
              map_of (fst (apply_overrides global_path per_theme_path defaults)) k =
                Some (case override_for_prefix_only p k of
                        Some pv \<Rightarrow> pv
                      | None \<Rightarrow> (case override_for_prefix_only g k of Some gv \<Rightarrow> gv | None \<Rightarrow> d)))"
proof -
  have a: "map_of (fst (apply_overrides global_path per_theme_path defaults)) k =
           Some (case override_for p k of
                   Some pv \<Rightarrow> pv
                 | None \<Rightarrow> (case override_for g k of Some gv \<Rightarrow> gv | None \<Rightarrow> d))"
    using assms
    by (simp add: apply_overrides_def map_of_apply_entries split: option.splits)
  have b: "map_of (fst (apply_overrides global_path per_theme_path defaults)) k =
                Some (case override_for_prefix_only p k of
                        Some pv \<Rightarrow> pv
                      | None \<Rightarrow> (case override_for_prefix_only g k of Some gv \<Rightarrow> gv | None \<Rightarrow> d))"
    if "list_all (\<lambda>kv. semantic_key (fst kv) = semantic_key_prefix_only (fst kv)) (g @ p)"
  proof -
    from that have eq: "override_for_prefix_only g k = override_for g k"
      "override_for_prefix_only p k = override_for p k"
      by (simp_all add: override_for_agree)
    show ?thesis unfolding eq by (rule a)
  qed
  from a b show ?thesis by blast
qed

theorem override_precedence_witness:
  "map_of [(''accent'', ''#112233'')] ''accent'' = Some ''#112233''
   \<and> read_overrides \<lparr>file_name = ''overrides.conf'', file_text = Some ''IDA_ACCENT=445566''\<rparr>
       = ([(''IDA_ACCENT'', ''#445566'')], [])
   \<and> read_overrides \<lparr>file_name = ''overrides.conf'', file_text = None\<rparr> = ([], [])
   \<and> list_all (\<lambda>kv. semantic_key (fst kv) = semantic_key_prefix_only (fst kv))
         ([(''IDA_ACCENT'', ''#445566'')] @ [])
   \<and> override_for_prefix_only [(''IDA_ACCENT'', ''#445566'')] ''accent'' = Some ''#445566''
   \<and> map_of (fst (apply_overrides
         \<lparr>file_name = ''overrides.conf'', file_text = Some ''IDA_ACCENT=445566''\<rparr>
         \<lparr>file_name = ''overrides.conf'', file_text = None\<rparr>
         [(''accent'', ''#112233'')])) ''accent'' = Some ''#445566''"
proof -
  have a: "map_of [(''accent'', ''#112233'')] ''accent'' = Some ''#112233''" by simp
  have b: "read_overrides \<lparr>file_name = ''overrides.conf'', file_text = Some ''IDA_ACCENT=445566''\<rparr>
       = ([(''IDA_ACCENT'', ''#445566'')], [])" by code_simp
  have c: "read_overrides \<lparr>file_name = ''overrides.conf'', file_text = None\<rparr> = ([], [])"
    by (simp add: read_overrides_def)
  have d: "override_for_prefix_only [] ''accent'' = None"
    by (simp add: override_for_prefix_only_def)
  have e: "override_for_prefix_only [(''IDA_ACCENT'', ''#445566'')] ''accent'' = Some ''#445566''"
    by code_simp
  have f: "list_all (\<lambda>kv. semantic_key (fst kv) = semantic_key_prefix_only (fst kv))
         ([(''IDA_ACCENT'', ''#445566'')] @ [])"
    by code_simp
  from override_precedence [OF a b c] f
  have "map_of (fst (apply_overrides
         \<lparr>file_name = ''overrides.conf'', file_text = Some ''IDA_ACCENT=445566''\<rparr>
         \<lparr>file_name = ''overrides.conf'', file_text = None\<rparr>
         [(''accent'', ''#112233'')])) ''accent''
      = Some (case override_for_prefix_only [] ''accent'' of
                Some pv \<Rightarrow> pv
              | None \<Rightarrow> (case override_for_prefix_only [(''IDA_ACCENT'', ''#445566'')] ''accent'' of
                           Some gv \<Rightarrow> gv | None \<Rightarrow> ''#112233''))"
    by blast
  then have g: "map_of (fst (apply_overrides
         \<lparr>file_name = ''overrides.conf'', file_text = Some ''IDA_ACCENT=445566''\<rparr>
         \<lparr>file_name = ''overrides.conf'', file_text = None\<rparr>
         [(''accent'', ''#112233'')])) ''accent'' = Some ''#445566''"
    unfolding d e by simp
  from a b c f e g show ?thesis by (intro conjI)
qed

text \<open>
  Claim C5 as stated fails with the spec's key rule: the raw key \<open>IDA_IDA_ACCENT\<close> maps to
  \<open>ida_accent\<close> when only the prefix is stripped, so no override maps to \<open>accent\<close> and the
  merged value would be the default \<open>#112233\<close>; the code removes both occurrences and the
  merged value is the override.
\<close>

theorem override_precedence_counterexample:
  "read_overrides \<lparr>file_name = ''overrides.conf'', file_text = Some ''IDA_IDA_ACCENT=222222''\<rparr>
     = ([(''IDA_IDA_ACCENT'', ''#222222'')], [])
   \<and> read_overrides \<lparr>file_name = ''overrides.conf'', file_text = None\<rparr> = ([], [])
   \<and> override_for_prefix_only [] ''accent'' = None
   \<and> override_for_prefix_only [(''IDA_IDA_ACCENT'', ''#222222'')] ''accent'' = None
   \<and> map_of (fst (apply_overrides
         \<lparr>file_name = ''overrides.conf'', file_text = Some ''IDA_IDA_ACCENT=222222''\<rparr>
         \<lparr>file_name = ''overrides.conf'', file_text = None\<rparr>
         [(''accent'', ''#112233'')])) ''accent'' = Some ''#222222''"
  by code_simp

section \<open>The semantic key of an override\<close>

lemma replace_from_at_start:
  "old \<noteq> [] \<Longrightarrow> replace_from old new (old @ r) = new @ replace_from old new r"
  by (cases old) simp_all

lemma replace_from_absent:
  "\<not> sublist old s \<Longrightarrow> replace_from old new s = s"
proof (induction old new s rule: replace_from.induct)
  case (1 old new)
  then show ?case by simp
next
  case (2 old new c cs)
  from "2.prems" have np: "\<not> prefix old (c # cs)"
    using prefix_imp_sublist by blast
  from "2.prems" have "\<not> sublist old cs"
    by (simp add: sublist_Cons_right)
  with "2.IH"(2) np show ?case by simp
qed

lemma prefix_within:
  assumes "prefix xs (ys @ zs)" and "length xs \<le> length ys"
  shows "prefix xs ys"
proof -
  from assms(1) obtain w where "ys @ zs = xs @ w" by (auto simp: prefix_def)
  then have "take (length xs) (ys @ zs) = xs" by simp
  with assms(2) have "take (length xs) ys = xs" by simp
  then show ?thesis by (metis take_is_prefix)
qed

lemma replace_from_first_occurrence:
  assumes "old \<noteq> []" and "\<not> sublist old (p @ butlast old)"
  shows "replace_from old new (p @ old @ r) = p @ new @ replace_from old new r"
  using assms(2)
proof (induction p)
  case Nil
  then show ?case using assms(1) by (simp add: replace_from_at_start)
next
  case (Cons c p)
  have "old @ r = butlast old @ (last old # r)"
    using assms(1) by (metis append.assoc append_Cons append_Nil append_butlast_last_id)
  then have split: "c # p @ old @ r = ((c # p) @ butlast old) @ (last old # r)"
    by simp
  have len: "length old \<le> length ((c # p) @ butlast old)"
    using assms(1) by simp
  have np: "\<not> prefix old (c # p @ old @ r)"
  proof
    assume "prefix old (c # p @ old @ r)"
    then have "prefix old (((c # p) @ butlast old) @ (last old # r))"
      unfolding split .
    then have "prefix old ((c # p) @ butlast old)"
      using len by (rule prefix_within)
    then show False using Cons.prems prefix_imp_sublist by blast
  qed
  from Cons.prems have "\<not> sublist old (p @ butlast old)"
    by (simp add: sublist_Cons_right)
  with Cons.IH np show ?case by simp
qed

text \<open>
  Claim C6, as amended: \<open>apply_overrides\<close> forms the semantic key of an override entry by
  removing every occurrence of \<open>IDA_\<close> from the raw key (found from left to right,
  case-sensitive, wherever it stands) and putting the rest in lower case. The merged
  mapping has exactly the keys of the defaults, in their order; a key of the defaults gets
  the value of the last per-theme entry whose raw key, treated so, is that key, else that
  of the last such global entry, else it keeps its default; every other entry is ignored.
  Of the removal: the first occurrence of \<open>IDA_\<close> is removed also when it stands in the
  middle of the key, and the scan goes on behind it; a key in which \<open>IDA_\<close> does not occur
  is left as it is.
\<close>

theorem apply_overrides_key_rule:
  assumes "read_overrides global_path = (g, w1)"
      and "read_overrides per_theme_path = (p, w2)"
  shows "dict_keys (fst (apply_overrides global_path per_theme_path defaults)) = dict_keys defaults
   \<and> map_of (fst (apply_overrides global_path per_theme_path defaults)) k =
       (case map_of defaults k of
          None \<Rightarrow> None
        | Some d \<Rightarrow>
            Some (case filter (\<lambda>kv. lower (str_replace (fst kv) ''IDA_'' []) = k) p of
                    x # xs \<Rightarrow> snd (last (x # xs))
                  | [] \<Rightarrow>
                      (case filter (\<lambda>kv. lower (str_replace (fst kv) ''IDA_'' []) = k) g of
                         x # xs \<Rightarrow> snd (last (x # xs))
                       | [] \<Rightarrow> d)))
   \<and> (\<not> sublist ''IDA_'' (a @ ''IDA'') \<longrightarrow>
        str_replace (a @ ''IDA_'' @ r) ''IDA_'' [] = a @ str_replace r ''IDA_'' [])
   \<and> (\<not> sublist ''IDA_'' key \<longrightarrow> str_replace key ''IDA_'' [] = key)"
proof (intro conjI impI)
  show "dict_keys (fst (apply_overrides global_path per_theme_path defaults)) = dict_keys defaults"
    by (simp add: apply_overrides_def dict_keys_apply_entries split: prod.splits)
next
  have o: "(case override_for ovs k of Some v \<Rightarrow> v | None \<Rightarrow> dflt) =
      (case filter (\<lambda>kv. lower (str_replace (fst kv) ''IDA_'' []) = k) ovs of
         x # xs \<Rightarrow> snd (last (x # xs)) | [] \<Rightarrow> dflt)" for ovs dflt
    by (simp add: override_for_def semantic_key_def split: list.splits)
  have "map_of (fst (apply_overrides global_path per_theme_path defaults)) k =
      (case map_of defaults k of
         None \<Rightarrow> None
       | Some d \<Rightarrow> Some (case override_for p k of
                            Some pv \<Rightarrow> pv
                          | None \<Rightarrow> (case override_for g k of Some gv \<Rightarrow> gv | None \<Rightarrow> d)))"
    using assms
    by (simp add: apply_overrides_def map_of_apply_entries split: option.splits)
  then show "map_of (fst (apply_overrides global_path per_theme_path defaults)) k =
       (case map_of defaults k of
          None \<Rightarrow> None
        | Some d \<Rightarrow>
            Some (case filter (\<lambda>kv. lower (str_replace (fst kv) ''IDA_'' []) = k) p of
                    x # xs \<Rightarrow> snd (last (x # xs))
                  | [] \<Rightarrow>
                      (case filter (\<lambda>kv. lower (str_replace (fst kv) ''IDA_'' []) = k) g of
                         x # xs \<Rightarrow> snd (last (x # xs))
                       | [] \<Rightarrow> d)))"
    unfolding o .
next
  assume "\<not> sublist ''IDA_'' (a @ ''IDA'')"
  then have "replace_from ''IDA_'' [] (a @ ''IDA_'' @ r) = a @ [] @ replace_from ''IDA_'' [] r"
    by (intro replace_from_first_occurrence) simp_all
  then show "str_replace (a @ ''IDA_'' @ r) ''IDA_'' [] = a @ str_replace r ''IDA_'' []"
    by (simp add: str_replace_def)
next
  assume "\<not> sublist ''IDA_'' key"
  then show "str_replace key ''IDA_'' [] = key"
    by (simp add: str_replace_def replace_from_absent)
qed

lemma not_sublist_ex1: "\<not> sublist ''IDA_'' (''MY_'' @ ''IDA'')"
  by (simp add: sublist_Cons_right prefix_Cons)

lemma not_sublist_ex2: "\<not> sublist ''IDA_'' ''ACCENT''"
  by (simp add: sublist_Cons_right prefix_Cons)

theorem apply_overrides_key_rule_witness:
  "read_overrides \<lparr>file_name = ''overrides.conf'',
       file_text = Some (''MY_IDA_ACCENT=222222'' @ [CHR 0x0A] @ ''NEW_KEY=445566'')\<rparr>
     = ([(''MY_IDA_ACCENT'', ''#222222''), (''NEW_KEY'', ''#445566'')], [])
   \<and> read_overrides \<lparr>file_name = ''overrides.conf'', file_text = None\<rparr> = ([], [])
   \<and> dict_keys (fst (apply_overrides
         \<lparr>file_name = ''overrides.conf'',
          file_text = Some (''MY_IDA_ACCENT=222222'' @ [CHR 0x0A] @ ''NEW_KEY=445566'')\<rparr>
         \<lparr>file_name = ''overrides.conf'', file_text = None\<rparr>
         [(''my_accent'', ''#111111'')])) = [''my_accent'']
   \<and> map_of (fst (apply_overrides
         \<lparr>file_name = ''overrides.conf'',
          file_text = Some (''MY_IDA_ACCENT=222222'' @ [CHR 0x0A] @ ''NEW_KEY=445566'')\<rparr>
         \<lparr>file_name = ''overrides.conf'', file_text = None\<rparr>
         [(''my_accent'', ''#111111'')])) ''my_accent'' = Some ''#222222''
   \<and> \<not> sublist ''IDA_'' (''MY_'' @ ''IDA'')
   \<and> str_replace (''MY_'' @ ''IDA_'' @ ''ACCENT'') ''IDA_'' [] = ''MY_ACCENT''
   \<and> \<not> sublist ''IDA_'' ''ACCENT''"
proof -
  let ?gp = "\<lparr>file_name = ''overrides.conf'',
       file_text = Some (''MY_IDA_ACCENT=222222'' @ [CHR 0x0A] @ ''NEW_KEY=445566'')\<rparr>"
  let ?pp = "\<lparr>file_name = ''overrides.conf'', file_text = None\<rparr>"
  have a: "read_overrides ?gp = ([(''MY_IDA_ACCENT'', ''#222222''), (''NEW_KEY'', ''#445566'')], [])"
    by code_simp
  have b: "read_overrides ?pp = ([], [])" by (simp add: read_overrides_def)
  note t = apply_overrides_key_rule [OF a b, of "[(''my_accent'', ''#111111'')]" "''my_accent''"
      "''MY_''" "''ACCENT''" "''ACCENT''"]
  have f: "filter (\<lambda>kv. lower (str_replace (fst kv) ''IDA_'' []) = ''my_accent'')
        [(''MY_IDA_ACCENT'', ''#222222''), (''NEW_KEY'', ''#445566'')]
      = [(''MY_IDA_ACCENT'', ''#222222'')]"
    by code_simp
  from t have c: "dict_keys (fst (apply_overrides ?gp ?pp [(''my_accent'', ''#111111'')])) = [''my_accent'']"
    by (simp add: dict_keys_def)
  from t have "map_of (fst (apply_overrides ?gp ?pp [(''my_accent'', ''#111111'')])) ''my_accent'' =
       (case map_of [(''my_accent'', ''#111111'')] ''my_accent'' of
          None \<Rightarrow> None
        | Some d \<Rightarrow>
            Some (case filter (\<lambda>kv. lower (str_replace (fst kv) ''IDA_'' []) = ''my_accent'') [] of
                    x # xs \<Rightarrow> snd (last (x # xs))
                  | [] \<Rightarrow>
                      (case filter (\<lambda>kv. lower (str_replace (fst kv) ''IDA_'' []) = ''my_accent'')
                              [(''MY_IDA_ACCENT'', ''#222222''), (''NEW_KEY'', ''#445566'')] of
                         x # xs \<Rightarrow> snd (last (x # xs))
                       | [] \<Rightarrow> d)))"
    by (elim conjE)
  then have d: "map_of (fst (apply_overrides ?gp ?pp [(''my_accent'', ''#111111'')])) ''my_accent''
      = Some ''#222222''"
    unfolding f by simp
  have g: "str_replace ''ACCENT'' ''IDA_'' [] = ''ACCENT''"
    using t not_sublist_ex2 by blast
  from t not_sublist_ex1 have "str_replace (''MY_'' @ ''IDA_'' @ ''ACCENT'') ''IDA_'' []
      = ''MY_'' @ str_replace ''ACCENT'' ''IDA_'' []"
    by blast
  then have e: "str_replace (''MY_'' @ ''IDA_'' @ ''ACCENT'') ''IDA_'' [] = ''MY_ACCENT''"
    unfolding g by simp
  from a b c d not_sublist_ex1 e not_sublist_ex2 show ?thesis by (intro conjI)
qed

text \<open>
  Claim C6 as stated fails: \<open>MY_IDA_ACCENT\<close> does not start with \<open>IDA_\<close>, so stripping a
  prefix would give \<open>my_ida_accent\<close>; the code removes \<open>IDA_\<close> from the middle and the
  override replaces the default \<open>my_accent\<close>.
\<close>

theorem semantic_key_prefix_counterexample:
  "semantic_key_prefix_only ''MY_IDA_ACCENT'' = ''my_ida_accent''
   \<and> semantic_key ''MY_IDA_ACCENT'' = ''my_accent''
   \<and> fst (apply_overrides
         \<lparr>file_name = ''overrides.conf'', file_text = Some ''MY_IDA_ACCENT=222222''\<rparr>
         \<lparr>file_name = ''overrides.conf'', file_text = None\<rparr>
         [(''my_accent'', ''#111111'')]) = [(''my_accent'', ''#222222'')]"
  by code_simp

section \<open>A line whose value fails validation\<close>

lemma read_lines_append:
  "read_lines fname n (xs @ ys) st = read_lines fname (n + length xs) ys (read_lines fname n xs st)"
proof (induction xs arbitrary: n st)
  case Nil
  then show ?case by simp
next
  case (Cons x xs)
  obtain ov ws where st: "st = (ov, ws)" by (cases st)
  show ?case unfolding st
    by (cases "parse_line fname (Suc n) x") (simp_all add: Cons.IH)
qed

lemma read_lines_warnings:
  "read_lines fname n ls (ov, ws) =
     (fst (read_lines fname n ls (ov, [])), ws @ snd (read_lines fname n ls (ov, [])))"
proof (induction ls arbitrary: n ov ws)
  case Nil
  then show ?case by simp
next
  case (Cons l ls)
  show ?case
  proof (cases "parse_line fname (Suc n) l")
    case Skipped
    then show ?thesis using Cons.IH [of "Suc n" ov ws] by simp
  next
    case (Entry k v)
    then show ?thesis using Cons.IH [of "Suc n" "dict_set ov k v" ws] by simp
  next
    case (Warning w)
    then show ?thesis
      using Cons.IH [of "Suc n" ov "ws @ [w]"] Cons.IH [of "Suc n" ov "[w]"] by simp
  qed
qed

lemma read_lines_blank:
  "read_lines fname n ([] # ls) st = read_lines fname (Suc n) ls st"
  by (cases st) (simp add: parse_line_def strip_Nil)

lemma set_dict_set: "set (dict_set d k v) \<subseteq> insert (k, v) (set d)"
  by (induction d) (auto split: if_splits)

lemma read_lines_entry_origin:
  assumes "(k, v) \<in> set (fst (read_lines fname n ls (ov, ws)))"
  shows "(k, v) \<in> set ov \<or> (\<exists>i < length ls. parse_line fname (Suc (n + i)) (ls ! i) = Entry k v)"
  using assms
proof (induction ls arbitrary: n ov ws)
  case Nil
  then show ?case by simp
next
  case (Cons l ls)
  let ?shift = "\<lambda>i. Suc i"
  have step: "(\<exists>i < length ls. parse_line fname (Suc (Suc n + i)) (ls ! i) = Entry k v)
      \<Longrightarrow> (\<exists>i < length (l # ls). parse_line fname (Suc (n + i)) ((l # ls) ! i) = Entry k v)"
    by (metis Suc_less_eq add_Suc_right add_Suc length_Cons nth_Cons_Suc)
  show ?case
  proof (cases "parse_line fname (Suc n) l")
    case Skipped
    with Cons.prems have "(k, v) \<in> set (fst (read_lines fname (Suc n) ls (ov, ws)))" by simp
    from Cons.IH [OF this] step show ?thesis by blast
  next
    case (Entry k' v')
    with Cons.prems have "(k, v) \<in> set (fst (read_lines fname (Suc n) ls (dict_set ov k' v', ws)))"
      by simp
    from Cons.IH [OF this] have
      "(k, v) \<in> set (dict_set ov k' v') \<or>
       (\<exists>i < length ls. parse_line fname (Suc (Suc n + i)) (ls ! i) = Entry k v)" .
    then show ?thesis
    proof
      assume "(k, v) \<in> set (dict_set ov k' v')"
      then have "(k, v) = (k', v') \<or> (k, v) \<in> set ov" using set_dict_set by fastforce
      then show ?thesis
      proof
        assume "(k, v) = (k', v')"
        with Entry have "parse_line fname (Suc (n + 0)) ((l # ls) ! 0) = Entry k v" by simp
        then show ?thesis by (metis length_Cons zero_less_Suc)
      qed simp
    next
      assume "\<exists>i < length ls. parse_line fname (Suc (Suc n + i)) (ls ! i) = Entry k v"
      with step show ?thesis by blast
    qed
  next
    case (Warning w)
    with Cons.prems have "(k, v) \<in> set (fst (read_lines fname (Suc n) ls (ov, ws @ [w])))" by simp
    from Cons.IH [OF this] step show ?thesis by blast
  qed
qed

lemma read_lines_bad_line:
  assumes "parse_line fname (Suc (length pre)) bad = Warning w"
  shows "read_lines fname 0 (pre @ bad # post) ([], []) =
           read_lines fname (Suc (length pre)) post
             (fst (read_lines fname 0 pre ([], [])), snd (read_lines fname 0 pre ([], [])) @ [w])"
proof -
  obtain ov ws where s: "read_lines fname 0 pre ([], []) = (ov, ws)"
    by (cases "read_lines fname 0 pre ([], [])")
  show ?thesis
    unfolding read_lines_append s using assms by simp
qed

lemma read_lines_blank_line:
  "read_lines fname 0 (pre @ [] # post) ([], []) =
     read_lines fname (Suc (length pre)) post (read_lines fname 0 pre ([], []))"
  unfolding read_lines_append by (simp add: read_lines_blank)


lemma rstrip_chars_prefix: "prefix (rstrip_chars chars s) s"
proof -
  have "suffix (dropWhile (\<lambda>c. c \<in> set chars) (rev s)) (rev s)"
    by (rule suffix_dropWhile)
  then show ?thesis
    unfolding rstrip_chars_def by (metis rev_rev_ident suffix_to_prefix)
qed

lemma strip_head: "strip s = c # cs \<Longrightarrow> \<not> is_space c"
proof -
  assume a: "strip s = c # cs"
  have "prefix (strip s) (lstrip_chars whitespace s)"
    unfolding strip_def by (rule rstrip_chars_prefix)
  with a obtain r where "lstrip_chars whitespace s = c # r"
    by (auto simp: prefix_def)
  then show ?thesis unfolding is_space_def by (rule lstrip_chars_head)
qed

lemma dropWhile_keeps:
  "xs \<noteq> [] \<Longrightarrow> \<not> P (hd xs) \<Longrightarrow> dropWhile P xs = xs"
  by (cases xs) simp_all

lemma strip_fixed:
  assumes "t = [] \<or> (\<not> is_space (hd t) \<and> \<not> is_space (last t))"
  shows "strip t = t"
proof (cases t)
  case Nil
  then show ?thesis by (simp add: strip_Nil)
next
  case (Cons c cs)
  with assms have h: "c \<notin> set whitespace" and l: "last t \<notin> set whitespace"
    by (simp_all add: is_space_def)
  from h Cons have a: "lstrip_chars whitespace t = t" by (simp add: lstrip_chars_def)
  from Cons have "rev t \<noteq> []" and "hd (rev t) = last t" by (simp_all add: hd_rev)
  with l have "dropWhile (\<lambda>c. c \<in> set whitespace) (rev t) = rev t"
    by (intro dropWhile_keeps) simp_all
  then have b: "rstrip_chars whitespace t = t" by (simp add: rstrip_chars_def)
  from a b show ?thesis by (simp add: strip_def)
qed

lemma strip_idem: "strip (strip s) = strip s"
proof (rule strip_fixed)
  show "strip s = [] \<or> (\<not> is_space (hd (strip s)) \<and> \<not> is_space (last (strip s)))"
  proof (cases "strip s")
    case Nil
    then show ?thesis by simp
  next
    case (Cons c cs)
    then have h: "\<not> is_space (hd (strip s))" using strip_head by simp
    from Cons have "strip s = butlast (strip s) @ [last (strip s)]" by simp
    then have "\<not> is_space (last (strip s))" by (rule strip_no_trailing_space)
    with h show ?thesis by simp
  qed
qed

lemma validate_rejects_message:
  assumes "color \<noteq> []" and "\<not> hex6_optional_marker (strip color)"
  shows "validate color context =
           Inl (ValueError (''Invalid hex color '' @ [CHR 0x27] @ color @ [CHR 0x27]
                  @ in_context context @ [CHR 0x0A]
                  @ ''Expected format: #RRGGBB or RRGGBB (e.g., #ff5f5f or ff5f5f)''))"
proof -
  have "hex_pattern_match (strip color) = None"
  proof (cases "hex_pattern_match (strip color)")
    case (Some d)
    then have "hex6_optional_marker (strip color)"
      by (rule hex_pattern_match_rejects) (rule strip_no_trailing_newline)
    with assms(2) show ?thesis by simp
  qed simp
  with assms(1) show ?thesis by (simp add: validate_def)
qed

text \<open>
  A line that, trimmed, is a key, the first \<open>=\<close> and a value, with the key and the value not
  empty when trimmed and the value not a colour, gives a warning that names the value, the
  file and the line.
\<close>

lemma parse_line_invalid:
  assumes line: "strip raw = k @ ''='' @ v"
      and k: "CHR ''='' \<notin> set k" "strip k \<noteq> []"
      and comment: "\<not> prefix ''#'' (strip raw)"
      and v: "strip v \<noteq> []" "\<not> hex6_optional_marker (strip v)"
  shows "parse_line fname n raw = Warning (invalid_line_warning fname n (strip v))"
proof -
  have "takeWhile (\<lambda>c. c \<noteq> CHR ''='') (k @ ''='' @ v) = k"
    using k(1) by (simp add: takeWhile_append)
  then have key: "strip (takeWhile (\<lambda>c. c \<noteq> CHR ''='') (strip raw)) = strip k"
    unfolding line by simp
  have "dropWhile (\<lambda>c. c \<noteq> CHR ''='') (k @ ''='' @ v) = ''='' @ v"
    using k(1) by (simp add: dropWhile_append)
  then have val: "strip (tl (dropWhile (\<lambda>c. c \<noteq> CHR ''='') (strip raw))) = strip v"
    unfolding line by simp
  have ne: "strip raw \<noteq> []" unfolding line by simp
  have eq: "CHR ''='' \<in> set (strip raw)" unfolding line by simp
  have ctx: "in_context (fname @ '' line '' @ show_nat n) = '' in '' @ fname @ '' line '' @ show_nat n"
    by (simp add: in_context_def)
  have "\<not> hex6_optional_marker (strip (strip v))" using v(2) by (simp add: strip_idem)
  with v(1) have "validate (strip v) (fname @ '' line '' @ show_nat n) =
      Inl (ValueError (''Invalid hex color '' @ [CHR 0x27] @ strip v @ [CHR 0x27]
                  @ in_context (fname @ '' line '' @ show_nat n) @ [CHR 0x0A]
                  @ ''Expected format: #RRGGBB or RRGGBB (e.g., #ff5f5f or ff5f5f)''))"
    by (rule validate_rejects_message)
  then have warn: "(case validate (strip v) (fname @ '' line '' @ show_nat n) of
        Inr x \<Rightarrow> Entry (strip k) x
      | Inl e \<Rightarrow> Warning (''Warning: '' @ message e)) =
      Warning (invalid_line_warning fname n (strip v))"
    unfolding ctx invalid_line_warning_def by simp
  have "parse_line fname n raw =
      (case validate (strip v) (fname @ '' line '' @ show_nat n) of
        Inr x \<Rightarrow> Entry (strip k) x
      | Inl e \<Rightarrow> Warning (''Warning: '' @ message e))"
    unfolding parse_line_def Let_def key val using ne eq comment k(2) v(1) by simp
  then show ?thesis unfolding warn .
qed

lemma merged_depends_on_mapping:
  "fst (apply_overrides g p d) =
     apply_entries (apply_entries d (fst (read_overrides g))) (fst (read_overrides p))"
  by (simp add: apply_overrides_def split: prod.splits)

text \<open>
  Claim C8, as amended: a line of an override file that, trimmed, is a key, the first \<open>=\<close>
  and a value, with the key and the value not empty when trimmed, that is no comment and
  whose trimmed value is not 6 hex digits after an optional marker, writes one warning to
  the diagnostic stream, naming the value, the file and the line, and adds nothing to the
  mapping; the lines after it are processed. The mapping returned is the one the file
  would give with that line blank: every entry of it comes from another line, so the key
  of the dropped line is absent unless another line of the file gives it a valid value.
  The merged result is the same as with the line blank, whether the file is the global or
  the per-theme one.
\<close>

theorem invalid_line_dropped:
  assumes "file_text f = Some txt"
      and "splitlines txt = pre @ raw # post"
      and "strip raw = k @ ''='' @ v"
      and "CHR ''='' \<notin> set k"
      and "strip k \<noteq> []"
      and "\<not> prefix ''#'' (strip raw)"
      and "strip v \<noteq> []"
      and "\<not> hex6_optional_marker (strip v)"
  shows "read_overrides f =
           read_lines (file_name f) (Suc (length pre)) post
             (fst (read_lines (file_name f) 0 pre ([], [])),
              snd (read_lines (file_name f) 0 pre ([], []))
                @ [invalid_line_warning (file_name f) (Suc (length pre)) (strip v)])
         \<and> invalid_line_warning (file_name f) (Suc (length pre)) (strip v)
               \<in> set (snd (read_overrides f))
         \<and> fst (read_overrides f) = fst (read_lines (file_name f) 0 (pre @ [] # post) ([], []))
         \<and> (\<forall>key val. (key, val) \<in> set (fst (read_overrides f)) \<longrightarrow>
               (\<exists>i < length (pre @ raw # post). i \<noteq> length pre
                  \<and> parse_line (file_name f) (Suc i) ((pre @ raw # post) ! i) = Entry key val))
         \<and> (\<forall>txt'. splitlines txt' = pre @ [] # post \<longrightarrow>
               fst (apply_overrides f per_theme defaults)
                 = fst (apply_overrides (f\<lparr>file_text := Some txt'\<rparr>) per_theme defaults)
               \<and> fst (apply_overrides global f defaults)
                 = fst (apply_overrides global (f\<lparr>file_text := Some txt'\<rparr>) defaults))"
proof -
  let ?nm = "file_name f"
  let ?s = "read_lines ?nm 0 pre ([], [])"
  let ?w = "invalid_line_warning ?nm (Suc (length pre)) (strip v)"
  have bad: "parse_line ?nm (Suc (length pre)) raw = Warning ?w"
    using assms(3-8) by (rule parse_line_invalid)
  have ro: "read_overrides f = read_lines ?nm 0 (pre @ raw # post) ([], [])"
    using assms(1,2) by (simp add: read_overrides_def)
  have c1: "read_overrides f =
      read_lines ?nm (Suc (length pre)) post (fst ?s, snd ?s @ [?w])"
    unfolding ro using bad by (rule read_lines_bad_line)
  have "snd (read_overrides f) =
      (snd ?s @ [?w]) @ snd (read_lines ?nm (Suc (length pre)) post (fst ?s, []))"
    unfolding c1 by (subst read_lines_warnings) simp
  then have c2: "?w \<in> set (snd (read_overrides f))" by simp
  have "fst (read_lines ?nm (Suc (length pre)) post (fst ?s, snd ?s @ [?w]))
      = fst (read_lines ?nm (Suc (length pre)) post (fst ?s, snd ?s))"
    by (subst read_lines_warnings, subst (2) read_lines_warnings) simp
  then have c3: "fst (read_overrides f) = fst (read_lines ?nm 0 (pre @ [] # post) ([], []))"
    unfolding c1 read_lines_blank_line by simp
  have c4: "\<exists>i < length (pre @ raw # post). i \<noteq> length pre
         \<and> parse_line ?nm (Suc i) ((pre @ raw # post) ! i) = Entry key val"
    if "(key, val) \<in> set (fst (read_overrides f))" for key val
  proof -
    from that have "(key, val) \<in> set (fst (read_lines ?nm 0 (pre @ raw # post) ([], [])))"
      unfolding ro .
    from read_lines_entry_origin [OF this]
    obtain i where i: "i < length (pre @ raw # post)"
        "parse_line ?nm (Suc i) ((pre @ raw # post) ! i) = Entry key val"
      by auto
    have "i \<noteq> length pre"
    proof
      assume "i = length pre"
      with i(2) bad show False by simp
    qed
    with i show ?thesis by blast
  qed
  have c5: "fst (apply_overrides f per_theme defaults)
              = fst (apply_overrides (f\<lparr>file_text := Some txt'\<rparr>) per_theme defaults)
            \<and> fst (apply_overrides global f defaults)
              = fst (apply_overrides global (f\<lparr>file_text := Some txt'\<rparr>) defaults)"
    if "splitlines txt' = pre @ [] # post" for txt'
  proof -
    have "fst (read_overrides (f\<lparr>file_text := Some txt'\<rparr>)) = fst (read_overrides f)"
      unfolding c3 using that by (simp add: read_overrides_def)
    then show ?thesis by (simp add: merged_depends_on_mapping)
  qed
  from c1 c2 c3 c4 c5 show ?thesis by blast
qed

theorem invalid_line_dropped_witness:
  "file_text example_overrides
     = Some (''IDA_ACCENT=445566'' @ [CHR 0x0A] @ '' IDA_FOO = zzzzzz '' @ [CHR 0x0A] @ ''IDA_INFO=#abcdef'')
   \<and> splitlines (''IDA_ACCENT=445566'' @ [CHR 0x0A] @ '' IDA_FOO = zzzzzz '' @ [CHR 0x0A] @ ''IDA_INFO=#abcdef'')
     = [''IDA_ACCENT=445566''] @ '' IDA_FOO = zzzzzz '' # [''IDA_INFO=#abcdef'']
   \<and> strip '' IDA_FOO = zzzzzz '' = ''IDA_FOO '' @ ''='' @ '' zzzzzz''
   \<and> CHR ''='' \<notin> set ''IDA_FOO ''
   \<and> strip ''IDA_FOO '' \<noteq> []
   \<and> \<not> prefix ''#'' (strip '' IDA_FOO = zzzzzz '')
   \<and> strip '' zzzzzz'' = ''zzzzzz''
   \<and> \<not> hex6_optional_marker (strip '' zzzzzz'')
   \<and> invalid_line_warning ''overrides.conf'' 2 ''zzzzzz''
       \<in> set (snd (read_overrides example_overrides))
   \<and> fst (read_overrides example_overrides)
     = [(''IDA_ACCENT'', ''#445566''), (''IDA_INFO'', ''#ABCDEF'')]"
proof -
  have a: "file_text example_overrides
     = Some (''IDA_ACCENT=445566'' @ [CHR 0x0A] @ '' IDA_FOO = zzzzzz '' @ [CHR 0x0A] @ ''IDA_INFO=#abcdef'')"
    by (simp add: example_overrides_def)
  have b: "splitlines (''IDA_ACCENT=445566'' @ [CHR 0x0A] @ '' IDA_FOO = zzzzzz '' @ [CHR 0x0A] @ ''IDA_INFO=#abcdef'')
     = [''IDA_ACCENT=445566''] @ '' IDA_FOO = zzzzzz '' # [''IDA_INFO=#abcdef'']"
    by code_simp
  have c: "strip '' IDA_FOO = zzzzzz '' = ''IDA_FOO '' @ ''='' @ '' zzzzzz''" by code_simp
  have d: "CHR ''='' \<notin> set ''IDA_FOO ''" by simp
  have e: "strip ''IDA_FOO '' \<noteq> []" by code_simp
  have f: "\<not> prefix ''#'' (strip '' IDA_FOO = zzzzzz '')" by code_simp
  have g: "strip '' zzzzzz'' = ''zzzzzz''" by code_simp
  have g': "strip '' zzzzzz'' \<noteq> []" by code_simp
  have h: "\<not> hex6_optional_marker (strip '' zzzzzz'')" by code_simp
  have n: "file_name example_overrides = ''overrides.conf''" "Suc (length [''IDA_ACCENT=445566'']) = 2"
    by (simp_all add: example_overrides_def)
  have m: "fst (read_lines (file_name example_overrides) 0
              ([''IDA_ACCENT=445566''] @ [] # [''IDA_INFO=#abcdef'']) ([], []))
     = [(''IDA_ACCENT'', ''#445566''), (''IDA_INFO'', ''#ABCDEF'')]"
    by code_simp
  note t = invalid_line_dropped [OF a b c d e f g' h, where per_theme = example_overrides
    and defaults = "[]" and global = example_overrides]
  from t have "invalid_line_warning (file_name example_overrides)
      (Suc (length [''IDA_ACCENT=445566''])) (strip '' zzzzzz'')
        \<in> set (snd (read_overrides example_overrides))"
    by (elim conjE)
  then have w: "invalid_line_warning ''overrides.conf'' 2 ''zzzzzz''
       \<in> set (snd (read_overrides example_overrides))"
    unfolding n g .
  from t have "fst (read_overrides example_overrides)
      = fst (read_lines (file_name example_overrides) 0
              ([''IDA_ACCENT=445566''] @ [] # [''IDA_INFO=#abcdef'']) ([], []))"
    by (elim conjE)
  then have r: "fst (read_overrides example_overrides)
      = [(''IDA_ACCENT'', ''#445566''), (''IDA_INFO'', ''#ABCDEF'')]"
    unfolding m .
  from a b c d e f g h w r show ?thesis by (intro conjI)
qed

text \<open>
  Claim C8 as stated fails where it says that the returned mapping omits the key: in a
  file with the lines \<open>IDA_FOO=112233\<close> and \<open>IDA_FOO=zzzzzz\<close> the second line is dropped
  with a warning, and the mapping still has \<open>IDA_FOO\<close>, from the first line; the default
  \<open>foo\<close> is replaced in the merged result.
\<close>

theorem invalid_line_key_counterexample:
  "parse_line ''overrides.conf'' 2 ''IDA_FOO=zzzzzz''
     = Warning (invalid_line_warning ''overrides.conf'' 2 ''zzzzzz'')
   \<and> read_overrides \<lparr>file_name = ''overrides.conf'',
         file_text = Some (''IDA_FOO=112233'' @ [CHR 0x0A] @ ''IDA_FOO=zzzzzz'')\<rparr>
     = ([(''IDA_FOO'', ''#112233'')], [invalid_line_warning ''overrides.conf'' 2 ''zzzzzz''])
   \<and> fst (apply_overrides
         \<lparr>file_name = ''overrides.conf'',
          file_text = Some (''IDA_FOO=112233'' @ [CHR 0x0A] @ ''IDA_FOO=zzzzzz'')\<rparr>
         \<lparr>file_name = ''overrides.conf'', file_text = None\<rparr>
         [(''foo'', ''#000000'')]) = [(''foo'', ''#112233'')]"
  by code_simp

section \<open>Rendering is one pass per key\<close>

lemma render_content_append:
  "render_content content (xs @ ys) = render_content (render_content content xs) ys"
  by (induction content xs rule: render_content.induct) simp_all

lemma placeholder_nonempty: "placeholder key \<noteq> []"
  by (simp add: placeholder_def)

lemma str_replace_absent: "\<not> sublist old s \<Longrightarrow> str_replace s old new = s"
  by (auto simp: str_replace_def replace_from_absent)

lemma render_content_no_placeholder:
  "list_all (\<lambda>kv. \<not> sublist (placeholder (fst kv)) t) rest \<Longrightarrow> render_content t rest = t"
  by (induction t rest rule: render_content.induct) (simp_all add: str_replace_absent)

text \<open>
  Claim C2, as amended: rendering makes one pass per entry of the data, in the data's
  order, and each pass replaces every occurrence of the key's placeholder in the whole
  current text, the values put in by earlier passes included. Within one pass the text put
  in is not scanned again: the scan goes on behind it. So a value is re-scanned for the
  placeholders of the keys that come after it, and it stays as it was put in when no
  placeholder of a later key occurs in the text after its pass (in particular the value of
  the last key is never scanned).
\<close>

theorem render_sequential:
  "render_content content (before @ (key, v) # rest)
     = render_content (str_replace (render_content content before) (placeholder key) v) rest
   \<and> (list_all (\<lambda>kv. \<not> sublist (placeholder (fst kv))
                   (str_replace (render_content content before) (placeholder key) v)) rest
        \<longrightarrow> render_content content (before @ (key, v) # rest)
              = str_replace (render_content content before) (placeholder key) v)
   \<and> (\<not> sublist (placeholder key) (p @ butlast (placeholder key))
        \<longrightarrow> str_replace (p @ placeholder key @ r) (placeholder key) v
              = p @ v @ str_replace r (placeholder key) v)"
proof (intro conjI impI)
  show a: "render_content content (before @ (key, v) # rest)
     = render_content (str_replace (render_content content before) (placeholder key) v) rest"
    by (simp add: render_content_append)
  assume "list_all (\<lambda>kv. \<not> sublist (placeholder (fst kv))
                   (str_replace (render_content content before) (placeholder key) v)) rest"
  then show "render_content content (before @ (key, v) # rest)
              = str_replace (render_content content before) (placeholder key) v"
    unfolding a by (rule render_content_no_placeholder)
next
  assume "\<not> sublist (placeholder key) (p @ butlast (placeholder key))"
  with placeholder_nonempty show "str_replace (p @ placeholder key @ r) (placeholder key) v
              = p @ v @ str_replace r (placeholder key) v"
    by (simp add: str_replace_def replace_from_first_occurrence)
qed

lemma render_ex1:
  "list_all (\<lambda>kv. \<not> sublist (placeholder (fst kv))
               (str_replace (render_content ''{a}'' [(''b'', ''X'')]) (placeholder ''a'') ''{b}'')) []"
  by simp

lemma render_ex2: "\<not> sublist (placeholder ''a'') (''x='' @ butlast (placeholder ''a''))"
  by (simp add: placeholder_def sublist_Cons_right prefix_Cons)

theorem render_sequential_witness:
  "render_content ''{a}'' ([(''b'', ''X'')] @ (''a'', ''{b}'') # []) = ''{b}''
   \<and> \<not> sublist (placeholder ''a'') (''x='' @ butlast (placeholder ''a''))
   \<and> str_replace (''x='' @ placeholder ''a'' @ '';'') (placeholder ''a'') ''{a}{a}'' = ''x={a}{a};''"
proof -
  note t = render_sequential [of "''{a}''" "[(''b'', ''X'')]" "''a''" "''{b}''" "[]" "''x=''" "'';''"]
  have e: "str_replace (render_content ''{a}'' [(''b'', ''X'')]) (placeholder ''a'') ''{b}'' = ''{b}''"
    by code_simp
  have f: "''x='' @ ''{a}{a}'' @ str_replace '';'' (placeholder ''a'') ''{a}{a}'' = ''x={a}{a};''"
    by code_simp
  from t render_ex1 have "render_content ''{a}'' ([(''b'', ''X'')] @ (''a'', ''{b}'') # [])
     = str_replace (render_content ''{a}'' [(''b'', ''X'')]) (placeholder ''a'') ''{b}''"
    by blast
  then have c1: "render_content ''{a}'' ([(''b'', ''X'')] @ (''a'', ''{b}'') # []) = ''{b}''"
    unfolding e .
  note t2 = render_sequential [of "''{a}''" "[(''b'', ''X'')]" "''a''" "''{a}{a}''" "[]" "''x=''" "'';''"]
  from t2 render_ex2 have "str_replace (''x='' @ placeholder ''a'' @ '';'') (placeholder ''a'') ''{a}{a}''
      = ''x='' @ ''{a}{a}'' @ str_replace '';'' (placeholder ''a'') ''{a}{a}''"
    by blast
  then have c2: "str_replace (''x='' @ placeholder ''a'' @ '';'') (placeholder ''a'') ''{a}{a}'' = ''x={a}{a};''"
    unfolding f .
  from c1 render_ex2 c2 show ?thesis by (intro conjI)
qed

text \<open>
  Claim C2 as stated fails: with the template \<open>{a}\<close> and the data \<open>a = {b}\<close>, \<open>b = X\<close>, in
  this order, the placeholder \<open>{b}\<close> that occurs in the value of \<open>a\<close> is replaced by the later
  pass for \<open>b\<close>; the output is \<open>X\<close>.
\<close>

theorem render_rescans_counterexample:
  "sublist (placeholder ''b'') ''{b}''
   \<and> render_template (\<lambda>n. if n = ''t.tmpl'' then Some ''{a}'' else None) ''t.tmpl''
        [(''a'', ''{b}''), (''b'', ''X'')] = Inr ''X''
   \<and> \<not> sublist (placeholder ''b'') ''X''"
proof -
  have a: "sublist (placeholder ''b'') ''{b}''" by (simp add: placeholder_def)
  have b: "render_template (\<lambda>n. if n = ''t.tmpl'' then Some ''{a}'' else None) ''t.tmpl''
        [(''a'', ''{b}''), (''b'', ''X'')] = Inr ''X''"
    by (simp add: render_template_def str_replace_def placeholder_def)
  have c: "\<not> sublist (placeholder ''b'') ''X''"
    by (simp add: placeholder_def sublist_Cons_right prefix_Cons)
  from a b c show ?thesis by (intro conjI)
qed

section \<open>Rounding to a float\<close>

lemma pow2_powi: "pow2 e = 2 powi e"
  by (simp add: pow2_def power_int_def power_one_over inverse_eq_divide)

lemma pow2_pos: "0 < pow2 e"
  by (simp add: pow2_powi)

lemma pow2_add: "pow2 (a + b) = pow2 a * pow2 b"
  by (simp add: pow2_powi power_int_add)

lemma pow2_Suc: "pow2 (e + 1) = 2 * pow2 e"
  by (simp add: pow2_add) (simp add: pow2_def)

lemma pow2_strict_mono: "a < b \<Longrightarrow> pow2 a < pow2 b"
  unfolding pow2_powi by (rule power_int_strict_increasing) simp_all

lemma pow2_less_iff: "pow2 a < pow2 b \<longleftrightarrow> a < b"
proof
  assume l: "pow2 a < pow2 b"
  show "a < b"
  proof (rule ccontr)
    assume "\<not> a < b"
    then have "b = a \<or> b < a" by linarith
    then have "pow2 b \<le> pow2 a" using pow2_strict_mono [of b a] by auto
    with l show False by simp
  qed
qed (rule pow2_strict_mono)

lemma pow2_le_iff: "pow2 a \<le> pow2 b \<longleftrightarrow> a \<le> b"
  using pow2_less_iff [of b a] by (simp add: not_less [symmetric])

lemma pow2_nat: "pow2 (int n) = 2 ^ n"
  by (simp add: pow2_def)

lemma bit_length_bounds:
  "0 < n \<Longrightarrow> 2 ^ (bit_length n - 1) \<le> n \<and> n < 2 ^ bit_length n"
proof (induction n rule: bit_length.induct)
  case (1 n)
  show ?case
  proof (cases "n div 2 \<le> 0")
    case True
    with "1.prems" have "n = 1" by linarith
    then show ?thesis by (simp add: bit_length.simps)
  next
    case False
    then have pos: "0 < n div 2" by simp
    from "1.prems" have n: "\<not> n \<le> 0" by simp
    from "1.IH" [OF n pos] have ih:
      "2 ^ (bit_length (n div 2) - 1) \<le> n div 2" "n div 2 < 2 ^ bit_length (n div 2)"
      by simp_all
    have bl: "bit_length n = Suc (bit_length (n div 2))"
      using n by (subst bit_length.simps) simp
    have b1: "0 < bit_length (n div 2)"
      using pos by (subst bit_length.simps) simp
    then have "(2::int) ^ bit_length (n div 2) = 2 * 2 ^ (bit_length (n div 2) - 1)"
      by (cases "bit_length (n div 2)") simp_all
    with ih(1) have lo: "2 ^ bit_length (n div 2) \<le> n" by linarith
    from ih(2) have hi: "n < 2 * 2 ^ bit_length (n div 2)" by linarith
    from lo hi show ?thesis by (simp add: bl)
  qed
qed

lemma bit_length_floor:
  fixes a :: rat
  assumes "1 \<le> a"
  shows "pow2 (int (bit_length \<lfloor>a\<rfloor>) - 1) \<le> a \<and> a < pow2 (int (bit_length \<lfloor>a\<rfloor>))"
proof -
  let ?n = "\<lfloor>a\<rfloor>"
  from assms have pos: "0 < ?n" by simp
  from bit_length_bounds [OF pos] have b: "2 ^ (bit_length ?n - 1) \<le> ?n" "?n < 2 ^ bit_length ?n"
    by simp_all
  have bl: "0 < bit_length ?n" using pos by (subst bit_length.simps) simp
  then have e: "int (bit_length ?n) - 1 = int (bit_length ?n - 1)" by simp
  have "(of_int (2 ^ (bit_length ?n - 1)) :: rat) \<le> of_int ?n"
    using b(1) by (simp only: of_int_le_iff)
  also have "\<dots> \<le> a" by simp
  finally have lo: "pow2 (int (bit_length ?n) - 1) \<le> a"
    unfolding e pow2_nat by simp
  from b(2) have "?n + 1 \<le> 2 ^ bit_length ?n" by simp
  then have "(of_int (?n + 1) :: rat) \<le> of_int (2 ^ bit_length ?n)"
    by (simp only: of_int_le_iff)
  moreover have "a < of_int (?n + 1)" by simp linarith
  ultimately have hi: "a < pow2 (int (bit_length ?n))"
    unfolding pow2_nat by simp
  from lo hi show ?thesis ..
qed

lemma ilog2_bounds:
  assumes "x \<noteq> 0"
  shows "pow2 (ilog2 x) \<le> \<bar>x\<bar> \<and> \<bar>x\<bar> < pow2 (ilog2 x + 1)"
proof (cases "1 \<le> \<bar>x\<bar>")
  case True
  from bit_length_floor [OF True] True show ?thesis
    by (simp add: ilog2_def)
next
  case False
  let ?a = "\<bar>x\<bar>"
  from assms have apos: "0 < ?a" by simp
  from False apos have q: "1 \<le> 1 / ?a" by simp
  define k where "k = int (bit_length \<lfloor>1 / ?a\<rfloor>) - 1"
  from bit_length_floor [OF q] have b: "pow2 k \<le> 1 / ?a" "1 / ?a < pow2 (k + 1)"
    by (simp_all add: k_def)
  have inv: "pow2 (- e) = 1 / pow2 e" for e
    by (simp add: pow2_powi power_int_minus_divide)
  from b(1) apos have up: "?a \<le> pow2 (- k)"
    unfolding inv using pow2_pos [of k] by (simp add: field_simps)
  from b(2) apos have lo: "pow2 (- k - 1) < ?a"
  proof -
    have i: "pow2 (- k - 1) = 1 / pow2 (k + 1)" using inv [of "k + 1"] by simp
    from b(2) apos have "1 < ?a * pow2 (k + 1)" by (simp add: pos_divide_less_eq mult.commute)
    then have "1 / pow2 (k + 1) < ?a" using pow2_pos [of "k + 1"] by (simp add: pos_divide_less_eq)
    then show ?thesis unfolding i .
  qed
  show ?thesis
  proof (cases "pow2 (- k) \<le> ?a")
    case True
    then have "ilog2 x = - k" using False by (simp add: ilog2_def k_def)
    moreover from True up have "?a = pow2 (- k)" by simp
    ultimately show ?thesis by (simp add: pow2_less_iff)
  next
    case F: False
    then have "ilog2 x = - k - 1" using False by (simp add: ilog2_def k_def Let_def)
    with lo F show ?thesis by simp
  qed
qed


lemma rne_unique:
  assumes "\<bar>x - of_int m\<bar> < 1 / 2"
  shows "rne x = m"
proof -
  from assms have a: "x - of_int m < 1 / 2" "of_int m - x < 1 / 2" by linarith+
  have fl: "\<lfloor>x\<rfloor> = m \<or> \<lfloor>x\<rfloor> = m - 1"
  proof -
    have "of_int (m - 1) \<le> x" using a(2) by simp
    then have 1: "m - 1 \<le> \<lfloor>x\<rfloor>" by (simp only: le_floor_iff)
    have "x < of_int (m + 1)" using a(1) by simp
    then have 2: "\<lfloor>x\<rfloor> < m + 1" by (simp only: floor_less_iff)
    from 1 2 show ?thesis by linarith
  qed
  then show ?thesis
  proof
    assume f: "\<lfloor>x\<rfloor> = m"
    with a(1) show ?thesis by (simp add: rne_def Let_def)
  next
    assume f: "\<lfloor>x\<rfloor> = m - 1"
    with a(2) have "1 / 2 < x - of_int \<lfloor>x\<rfloor>" by simp
    with f show ?thesis by (simp add: rne_def Let_def)
  qed
qed

lemma rne_of_int: "rne (of_int m) = m"
  by (rule rne_unique) simp


lemma fround_zero: "fround 0 = Inr 0"
  by (simp add: fround_def)


section \<open>Floats that stay finite\<close>

text \<open>
  Bounds on one rounding: a result is no larger than a power of two that bounds the exact
  value and no smaller than a power of two below it, and it is within half a unit in the
  last place of the exact value.
\<close>

lemma rne_le_int:
  assumes "x \<le> of_int n"
  shows "rne x \<le> n"
proof -
  from assms have f: "\<lfloor>x\<rfloor> \<le> n" by (simp add: floor_le_iff)
  show ?thesis
  proof (cases "\<lfloor>x\<rfloor> = n")
    case True
    with assms have "x - of_int \<lfloor>x\<rfloor> \<le> 0" by simp
    then have "x - of_int \<lfloor>x\<rfloor> < 1 / 2" by linarith
    then show ?thesis using True by (simp add: rne_def Let_def)
  next
    case False
    with f have "\<lfloor>x\<rfloor> + 1 \<le> n" by simp
    then show ?thesis by (simp add: rne_def Let_def)
  qed
qed

lemma rne_ge_int:
  assumes "of_int n \<le> x"
  shows "n \<le> rne x"
proof -
  from assms have "n \<le> \<lfloor>x\<rfloor>" by (simp add: le_floor_iff)
  then show ?thesis by (simp add: rne_def Let_def)
qed

lemma rne_error: "\<bar>of_int (rne x) - x\<bar> \<le> 1 / 2"
proof -
  have "of_int \<lfloor>x\<rfloor> \<le> x" "x < of_int \<lfloor>x\<rfloor> + 1" by linarith+
  then show ?thesis by (auto simp: rne_def Let_def abs_le_iff)
qed

lemma pow2_int: "0 \<le> e \<Longrightarrow> pow2 e = of_int (2 ^ nat e)"
  by (simp add: pow2_def)

lemma pow2_diff: "pow2 a / pow2 b = pow2 (a - b)"
proof -
  have "pow2 a = pow2 (a - b) * pow2 b" by (simp add: pow2_add [symmetric])
  then show ?thesis using pow2_pos [of b] by simp
qed

lemma ilog2_le:
  assumes "x \<noteq> 0" and "\<bar>x\<bar> \<le> pow2 k"
  shows "ilog2 x \<le> k"
proof -
  from ilog2_bounds [OF assms(1)] assms(2) have "pow2 (ilog2 x) \<le> pow2 k" by linarith
  then show ?thesis by (simp add: pow2_le_iff)
qed

lemma fround_abs_le:
  assumes "\<bar>x\<bar> \<le> pow2 k" and "- 1074 \<le> k" and "k \<le> 1023"
  shows "\<exists>y. fround x = Inr y \<and> \<bar>y\<bar> \<le> pow2 k"
proof (cases "x = 0")
  case True
  then show ?thesis using pow2_pos [of k] by (simp add: fround_def less_imp_le)
next
  case False
  define e where "e = max (ilog2 x) (- 1022)"
  define ulp where "ulp = pow2 (e - 52)"
  define y where "y = of_int (rne (x / ulp)) * ulp"
  have up: "0 < ulp" by (simp add: ulp_def pow2_pos)
  from ilog2_le [OF False assms(1)] assms(2) have ek: "0 \<le> k - (e - 52)" by (simp add: e_def)
  define n :: int where "n = 2 ^ nat (k - (e - 52))"
  have n: "pow2 k / ulp = of_int n"
    unfolding ulp_def n_def pow2_diff using ek by (simp add: pow2_int)
  from assms(1) have "x \<le> pow2 k" "- pow2 k \<le> x" by linarith+
  with up have "x / ulp \<le> pow2 k / ulp" "(- pow2 k) / ulp \<le> x / ulp"
    by (intro divide_right_mono, simp, simp)+
  then have "x / ulp \<le> pow2 k / ulp" "- (pow2 k / ulp) \<le> x / ulp" by simp_all
  then have "x / ulp \<le> of_int n" "of_int (- n) \<le> x / ulp" by (simp_all add: n)
  then have "rne (x / ulp) \<le> n" "- n \<le> rne (x / ulp)"
    by (simp_all only: rne_le_int rne_ge_int)
  then have "\<bar>rne (x / ulp)\<bar> \<le> n" by linarith
  then have "\<bar>(of_int (rne (x / ulp)) :: rat)\<bar> \<le> of_int n"
    by (metis of_int_abs of_int_le_iff)
  then have "\<bar>y\<bar> \<le> of_int n * ulp"
    unfolding y_def abs_mult using up by (simp add: mult_right_mono)
  also have "\<dots> = pow2 k" using n up by (simp add: field_simps)
  finally have yk: "\<bar>y\<bar> \<le> pow2 k" .
  have "\<not> (y \<noteq> 0 \<and> 1024 \<le> ilog2 y)"
  proof
    assume a: "y \<noteq> 0 \<and> 1024 \<le> ilog2 y"
    with ilog2_le [of y k] yk have "1024 \<le> k" by simp
    with assms(3) show False by simp
  qed
  then have "fround x = Inr y"
    using False unfolding fround_def y_def ulp_def e_def by (simp add: Let_def)
  with yk show ?thesis by simp
qed

lemma fround_nonneg:
  assumes "0 \<le> x" and "fround x = Inr y"
  shows "0 \<le> y"
proof (cases "x = 0")
  case True
  with assms(2) show ?thesis by (simp add: fround_def)
next
  case False
  define ulp where "ulp = pow2 (max (ilog2 x) (- 1022) - 52)"
  have up: "0 < ulp" by (simp add: ulp_def pow2_pos)
  from assms(2) False have y: "y = of_int (rne (x / ulp)) * ulp"
    unfolding fround_def ulp_def by (simp add: Let_def split: if_splits)
  from assms(1) up have "of_int 0 \<le> x / ulp" by simp
  then have "0 \<le> rne (x / ulp)" by (rule rne_ge_int)
  with up show ?thesis unfolding y by simp
qed

lemma fround_ge_pow2:
  assumes "pow2 k \<le> x" and "- 1074 \<le> k" and "fround x = Inr y"
  shows "pow2 k \<le> y"
proof -
  from assms(1) pow2_pos [of k] have x0: "0 < x" by linarith
  define e where "e = max (ilog2 x) (- 1022)"
  define ulp where "ulp = pow2 (e - 52)"
  have up: "0 < ulp" by (simp add: ulp_def pow2_pos)
  from assms(3) x0 have y: "y = of_int (rne (x / ulp)) * ulp"
    unfolding fround_def ulp_def e_def by (simp add: Let_def split: if_splits)
  show ?thesis
  proof (cases "e - 52 \<le> k")
    case True
    define n :: int where "n = 2 ^ nat (k - (e - 52))"
    have n: "pow2 k / ulp = of_int n"
      unfolding ulp_def n_def pow2_diff using True by (simp add: pow2_int)
    from assms(1) up have "pow2 k / ulp \<le> x / ulp" by (simp add: divide_right_mono)
    then have "of_int n \<le> x / ulp" by (simp add: n)
    then have "n \<le> rne (x / ulp)" by (rule rne_ge_int)
    then have "(of_int n :: rat) \<le> of_int (rne (x / ulp))" by simp
    then have "of_int n * ulp \<le> y" unfolding y using up by (simp add: mult_right_mono)
    moreover have "of_int n * ulp = pow2 k" using n up by (simp add: field_simps)
    ultimately show ?thesis by simp
  next
    case False
    with assms(2) have e: "e = ilog2 x" "k \<le> e" by (simp_all add: e_def max_def split: if_splits)
    from ilog2_bounds [of x] x0 have "pow2 e \<le> x" by (simp add: e)
    with up have "pow2 e / ulp \<le> x / ulp" by (simp add: divide_right_mono)
    moreover have "pow2 e / ulp = of_int (2 ^ 52)"
      unfolding ulp_def pow2_diff by (simp add: pow2_def)
    ultimately have "of_int (2 ^ 52) \<le> x / ulp" by simp
    then have "2 ^ 52 \<le> rne (x / ulp)" by (rule rne_ge_int)
    then have "(of_int (2 ^ 52) :: rat) \<le> of_int (rne (x / ulp))" by (simp only: of_int_le_iff)
    then have "of_int (2 ^ 52) * ulp \<le> y" unfolding y using up by (simp add: mult_right_mono)
    moreover have "of_int (2 ^ 52) * ulp = pow2 e"
      using \<open>pow2 e / ulp = of_int (2 ^ 52)\<close> up by (simp add: field_simps)
    moreover from e(2) have "pow2 k \<le> pow2 e" by (simp add: pow2_le_iff)
    ultimately show ?thesis by simp
  qed
qed

lemma pow2_numeral:
  "pow2 (numeral n) = 2 ^ numeral n"
  "pow2 (- numeral n) = 1 / 2 ^ numeral n"
  "pow2 0 = 1" "pow2 1 = 2" "pow2 (- 1) = 1 / 2"
  by (simp_all add: pow2_def)

lemma pow2_values:
  "pow2 0 = 1" "pow2 1 = 2" "pow2 2 = 4" "pow2 3 = 8" "pow2 4 = 16" "pow2 5 = 32"
  "pow2 6 = 64" "pow2 7 = 128" "pow2 8 = 256" "pow2 9 = 512" "pow2 10 = 1024"
  "pow2 11 = 2048" "pow2 12 = 4096" "pow2 13 = 8192"
  "pow2 (- 1) = 1 / 2" "pow2 (- 8) = 1 / 256" "pow2 (- 9) = 1 / 512" "pow2 (- 10) = 1 / 1024"
  by (simp_all add: pow2_def)

lemma pow2_shift: "pow2 (a + k) = pow2 k * pow2 a"
  by (simp add: pow2_add)

lemma and_then_Inr_eq: "and_then (Inr x) f = f x"
  by (simp add: and_then_def)

lemma fadd_returns:
  assumes "\<bar>x + y\<bar> \<le> pow2 k" and "- 1074 \<le> k" and "k \<le> 1023"
  shows "\<exists>z. fadd x y = Inr z \<and> \<bar>z\<bar> \<le> pow2 k"
  unfolding fadd_def using assms by (rule fround_abs_le)

lemma fsub_returns:
  assumes "\<bar>x - y\<bar> \<le> pow2 k" and "- 1074 \<le> k" and "k \<le> 1023"
  shows "\<exists>z. fsub x y = Inr z \<and> \<bar>z\<bar> \<le> pow2 k"
  unfolding fsub_def using assms by (rule fround_abs_le)

lemma fmul_returns:
  assumes "\<bar>x * y\<bar> \<le> pow2 k" and "- 1074 \<le> k" and "k \<le> 1023"
  shows "\<exists>z. fmul x y = Inr z \<and> \<bar>z\<bar> \<le> pow2 k"
  unfolding fmul_def using assms by (rule fround_abs_le)

lemma fdiv_returns:
  assumes "y \<noteq> 0" and "\<bar>x / y\<bar> \<le> pow2 k" and "- 1074 \<le> k" and "k \<le> 1023"
  shows "\<exists>z. fdiv x y = Inr z \<and> \<bar>z\<bar> \<le> pow2 k"
  unfolding fdiv_def using assms(1) fround_abs_le [OF assms(2-4)] by simp

text \<open>\<open>x % 1.0\<close> returns for every float, with a result from 0 to 1.\<close>

lemma fmod_one: "\<exists>m. fmod x 1 = Inr m \<and> 0 \<le> m \<and> m \<le> 1"
proof (cases "0 \<le> x")
  case True
  have "of_int \<lfloor>x\<rfloor> \<le> x" "x < of_int \<lfloor>x\<rfloor> + 1" by linarith+
  then have "0 \<le> x - of_int \<lfloor>x\<rfloor>" "x - of_int \<lfloor>x\<rfloor> \<le> 1"
    "\<not> x < of_int \<lfloor>x\<rfloor>" by linarith+
  with True show ?thesis by (simp add: fmod_def py_int_def Let_def)
next
  case False
  define t where "t = x - of_int \<lceil>x\<rceil>"
  have "x \<le> of_int \<lceil>x\<rceil>" "of_int \<lceil>x\<rceil> < x + 1" by linarith+
  then have t: "t \<le> 0" "- 1 < t" by (simp_all add: t_def)
  show ?thesis
  proof (cases "t = 0")
    case True
    with False show ?thesis by (simp add: fmod_def py_int_def Let_def t_def)
  next
    case nz: False
    from t have "\<bar>t + 1\<bar> \<le> pow2 0" by (simp add: pow2_numeral)
    from fround_abs_le [OF this] obtain y where y: "fround (t + 1) = Inr y" "\<bar>y\<bar> \<le> pow2 0"
      by auto
    from t have "0 \<le> t + 1" by simp
    from fround_nonneg [OF this y(1)] y(2) have "0 \<le> y" "y \<le> 1" by (simp_all add: pow2_numeral)
    moreover from nz t have "t < 0" by simp
    ultimately show ?thesis
      using False nz y(1) by (simp add: fmod_def py_int_def Let_def t_def [symmetric])
  qed
qed

lemma constants_return:
  "\<exists>c. ONE_THIRD = Inr c \<and> \<bar>c\<bar> \<le> 1"
  "\<exists>c. ONE_SIXTH = Inr c \<and> \<bar>c\<bar> \<le> 1"
  "\<exists>c. TWO_THIRD = Inr c \<and> \<bar>c\<bar> \<le> 1"
  using fdiv_returns [of 3 1 0] fdiv_returns [of 6 1 0] fdiv_returns [of 3 2 0]
  by (simp_all add: ONE_THIRD_def ONE_SIXTH_def TWO_THIRD_def pow2_numeral)

lemma colorsys_v_returns:
  assumes m1: "\<bar>m1\<bar> \<le> pow2 a" and m2: "\<bar>m2\<bar> \<le> pow2 a" and a: "0 \<le> a" "a \<le> 1000"
  shows "\<exists>v. colorsys_v m1 m2 hue0 = Inr v \<and> \<bar>v\<bar> \<le> pow2 (a + 5)"
proof -
  define P where "P = pow2 a"
  have P: "0 < P" by (simp add: P_def pow2_pos)
  note sh = pow2_shift [of a, folded P_def] pow2_values
  from fmod_one obtain hue where hue: "fmod hue0 1 = Inr hue" "0 \<le> hue" "hue \<le> 1" by blast
  from constants_return obtain one_sixth two_third where
    c: "ONE_SIXTH = Inr one_sixth" "TWO_THIRD = Inr two_third" "\<bar>two_third\<bar> \<le> 1"
    by blast
  from m1 m2 have "\<bar>m2 - m1\<bar> \<le> pow2 (a + 1)" unfolding sh P_def [symmetric] by linarith
  from fsub_returns [OF this] a obtain d where d: "fsub m2 m1 = Inr d" "\<bar>d\<bar> \<le> pow2 (a + 1)"
    by auto
  have prod: "\<bar>d * w\<bar> \<le> pow2 (a + 1)" if "\<bar>w\<bar> \<le> 1" for w
  proof -
    from d(2) that have "\<bar>d\<bar> * \<bar>w\<bar> \<le> pow2 (a + 1) * 1" by (intro mult_mono) simp_all
    then show ?thesis by (simp add: abs_mult)
  qed
  have tail: "\<exists>v. and_then (fmul t 6) (\<lambda>u. fadd m1 u) = Inr v \<and> \<bar>v\<bar> \<le> pow2 (a + 5)"
    if t: "\<bar>t\<bar> \<le> pow2 (a + 1)" for t
  proof -
    from t have "\<bar>t * 6\<bar> \<le> pow2 (a + 4)" unfolding sh by (simp add: abs_mult)
    from fmul_returns [OF this] a obtain u where u: "fmul t 6 = Inr u" "\<bar>u\<bar> \<le> pow2 (a + 4)"
      by auto
    from u(2) m1 P have "\<bar>m1 + u\<bar> \<le> pow2 (a + 5)" unfolding sh P_def [symmetric] by linarith
    from fadd_returns [OF this] a obtain v where "fadd m1 u = Inr v" "\<bar>v\<bar> \<le> pow2 (a + 5)"
      by auto
    with u(1) show ?thesis by (simp add: and_then_Inr_eq)
  qed
  from m1 m2 P have small: "\<bar>m1\<bar> \<le> pow2 (a + 5)" "\<bar>m2\<bar> \<le> pow2 (a + 5)"
    unfolding sh P_def [symmetric] by linarith+
  consider "hue < one_sixth" | "\<not> hue < one_sixth" "hue < 1 / 2"
    | "\<not> hue < one_sixth" "\<not> hue < 1 / 2" "hue < two_third"
    | "\<not> hue < one_sixth" "\<not> hue < 1 / 2" "\<not> hue < two_third"
    by blast
  then show ?thesis
  proof cases
    case 1
    from hue have "\<bar>hue\<bar> \<le> 1" by simp
    from fmul_returns [OF prod [OF this]] a obtain t where
      t: "fmul d hue = Inr t" "\<bar>t\<bar> \<le> pow2 (a + 1)" by auto
    from tail [OF t(2)] 1 show ?thesis
      unfolding colorsys_v_def hue(1) c(1,2) and_then_Inr_eq
      by (simp add: d(1) t(1) and_then_Inr_eq)
  next
    case 2
    with small show ?thesis
      unfolding colorsys_v_def hue(1) c(1,2) and_then_Inr_eq by simp
  next
    case 3
    from 3 hue c(3) have "\<bar>two_third - hue\<bar> \<le> pow2 0" unfolding pow2_numeral by linarith
    from fsub_returns [OF this] obtain w where
      w: "fsub two_third hue = Inr w" "\<bar>w\<bar> \<le> 1" by (auto simp: pow2_numeral)
    from fmul_returns [OF prod [OF w(2)]] a obtain t where
      t: "fmul d w = Inr t" "\<bar>t\<bar> \<le> pow2 (a + 1)" by auto
    from tail [OF t(2)] 3 show ?thesis
      unfolding colorsys_v_def hue(1) c(1,2) and_then_Inr_eq
      by (simp add: d(1) w(1) t(1) and_then_Inr_eq)
  next
    case 4
    with small show ?thesis
      unfolding colorsys_v_def hue(1) c(1,2) and_then_Inr_eq by simp
  qed
qed

lemma fround_error:
  assumes "\<bar>x\<bar> \<le> pow2 k" and "- 1022 \<le> k" and "fround x = Inr y"
  shows "\<bar>y - x\<bar> \<le> pow2 (k - 53)"
proof (cases "x = 0")
  case True
  with assms(3) pow2_pos [of "k - 53"] show ?thesis by (simp add: fround_def)
next
  case False
  define e where "e = max (ilog2 x) (- 1022)"
  define ulp where "ulp = pow2 (e - 52)"
  have up: "0 < ulp" by (simp add: ulp_def pow2_pos)
  from assms(3) False have y: "y = of_int (rne (x / ulp)) * ulp"
    unfolding fround_def ulp_def e_def by (simp add: Let_def split: if_splits)
  from ilog2_le [OF False assms(1)] assms(2) have "e - 52 \<le> k - 52" by (simp add: e_def)
  then have u: "ulp \<le> pow2 (k - 52)" by (simp add: ulp_def pow2_le_iff)
  have "y - x = (of_int (rne (x / ulp)) - x / ulp) * ulp"
    unfolding y using up by (simp add: field_simps)
  then have "\<bar>y - x\<bar> = \<bar>of_int (rne (x / ulp)) - x / ulp\<bar> * ulp"
    using up by (simp add: abs_mult)
  also have "\<dots> \<le> (1 / 2) * ulp" using rne_error [of "x / ulp"] up by (intro mult_right_mono) simp_all
  also have "\<dots> \<le> (1 / 2) * pow2 (k - 52)" using u by simp
  also have "\<dots> = pow2 (k - 53)" using pow2_Suc [of "k - 53"] by simp
  finally show ?thesis .
qed

text \<open>The float of a channel, \<open>v / 255.0\<close> for an integer \<open>v\<close> from 0 to 255.\<close>

lemma channel_float:
  assumes "0 \<le> v" and "v \<le> 255"
  shows "\<exists>x. fdiv (of_int v) 255 = Inr x \<and> 0 \<le> x \<and> x \<le> 1 \<and> \<bar>x - of_int v / 255\<bar> \<le> pow2 (- 53)"
proof -
  from assms have b: "0 \<le> (of_int v :: rat) / 255" "(of_int v :: rat) / 255 \<le> 1" by simp_all
  then have a: "\<bar>(of_int v :: rat) / 255\<bar> \<le> pow2 0" by (simp add: pow2_values)
  from fround_abs_le [OF a] obtain x where x: "fround (of_int v / 255) = Inr x" "\<bar>x\<bar> \<le> pow2 0"
    by auto
  from fround_nonneg [OF b(1) x(1)] x(2) have "0 \<le> x" "x \<le> 1" by (simp_all add: pow2_values)
  moreover from fround_error [OF a _ x(1)] have "\<bar>x - of_int v / 255\<bar> \<le> pow2 (- 53)" by simp
  ultimately show ?thesis using x(1) by (simp add: fdiv_def)
qed

lemma channel_separation:
  assumes "fdiv (of_int v) 255 = Inr x" and "fdiv (of_int w) 255 = Inr y"
    and "\<bar>x - of_int v / 255\<bar> \<le> pow2 (- 53)" and "\<bar>y - of_int w / 255\<bar> \<le> pow2 (- 53)"
    and "x \<noteq> y"
  shows "pow2 (- 9) \<le> \<bar>x - y\<bar>"
proof -
  have e: "pow2 (- 53) = 1 / 9007199254740992" by (simp add: pow2_def)
  from assms(1,2,5) have "v \<noteq> w" by auto
  then have "v + 1 \<le> w \<or> w + 1 \<le> v" by linarith
  then have "(of_int v :: rat) + 1 \<le> of_int w \<or> (of_int w :: rat) + 1 \<le> of_int v"
    by (metis of_int_1 of_int_add of_int_le_iff)
  then have "1 / 255 \<le> \<bar>(of_int v :: rat) / 255 - of_int w / 255\<bar>" by auto
  with assms(3,4) show ?thesis unfolding e pow2_values by linarith
qed

lemma quotient_returns:
  assumes "\<bar>x\<bar> \<le> 1" and "pow2 (- 9) \<le> y"
  shows "\<exists>z. fdiv x y = Inr z \<and> \<bar>z\<bar> \<le> pow2 9"
proof -
  from assms(2) have y: "0 < y" "1 / 512 \<le> y" by (simp_all add: pow2_values)
  from assms(1) y have "\<bar>x\<bar> / y \<le> 1 / (1 / 512)" by (intro frac_le) simp_all
  with y have "\<bar>x / y\<bar> \<le> pow2 9" by (simp add: pow2_values)
  from fdiv_returns [OF _ this] y show ?thesis by simp
qed

lemma rgb_to_hls_returns:
  assumes r: "0 \<le> r" "r \<le> 1" and g: "0 \<le> g" "g \<le> 1" and b: "0 \<le> b" "b \<le> 1"
    and sep: "\<And>x y. x \<in> {r, g, b} \<Longrightarrow> y \<in> {r, g, b} \<Longrightarrow> x \<noteq> y \<Longrightarrow> pow2 (- 9) \<le> \<bar>x - y\<bar>"
  shows "\<exists>h l s. rgb_to_hls r g b = Inr (h, l, s) \<and> 0 \<le> h \<and> h \<le> 1 \<and> \<bar>l\<bar> \<le> 1 \<and> \<bar>s\<bar> \<le> pow2 9"
proof -
  define mx where "mx = max r (max g b)"
  define mn where "mn = min r (min g b)"
  have mem: "mx \<in> {r, g, b}" "mn \<in> {r, g, b}" by (auto simp: mx_def mn_def max_def min_def)
  from r g b have mx: "0 \<le> mn" "mn \<le> mx" "mx \<le> 1"
    by (auto simp: mx_def mn_def max_def min_def)
  have c: "r \<le> mx" "g \<le> mx" "b \<le> mx" by (simp_all add: mx_def)
  from mx have "\<bar>mx + mn\<bar> \<le> pow2 1" unfolding pow2_values by linarith
  from fadd_returns [OF this] obtain sumc where
    sumc: "fadd mx mn = Inr sumc" "\<bar>sumc\<bar> \<le> pow2 1" by auto
  from mx have "\<bar>mx - mn\<bar> \<le> pow2 0" unfolding pow2_values by linarith
  from fsub_returns [OF this] obtain rangec where
    rangec: "fsub mx mn = Inr rangec" "\<bar>rangec\<bar> \<le> pow2 0" by auto
  from sumc(2) have "\<bar>sumc / 2\<bar> \<le> pow2 0" by (simp add: pow2_values)
  from fdiv_returns [OF _ this] obtain l where
    l: "fdiv sumc 2 = Inr l" "\<bar>l\<bar> \<le> pow2 0" by auto
  show ?thesis
  proof (cases "mn = mx")
    case True
    then show ?thesis
      unfolding rgb_to_hls_def Let_def mx_def [symmetric] mn_def [symmetric]
        sumc(1) rangec(1) l(1) and_then_Inr_eq
      using l(2) pow2_pos [of 9] by (simp add: pow2_values)
  next
    case False
    with sep [OF mem] have "pow2 (- 9) \<le> \<bar>mx - mn\<bar>" by simp
    with mx have gap: "pow2 (- 9) \<le> mx - mn" by linarith
    from fround_ge_pow2 [OF gap] rangec(1) have rg: "pow2 (- 9) \<le> rangec" by (simp add: fsub_def)
    from gap mx have "pow2 (- 9) \<le> mx + mn" by linarith
    from fround_ge_pow2 [OF this] sumc(1) have sm: "pow2 (- 9) \<le> sumc" by (simp add: fadd_def)
    from rangec(2) have r1: "\<bar>rangec\<bar> \<le> 1" by (simp add: pow2_values)
    have "\<exists>s. (if l \<le> 1 / 2 then fdiv rangec sumc
                else and_then (fsub 2 mx) (\<lambda>t. and_then (fsub t mn) (\<lambda>u. fdiv rangec u))) = Inr s
              \<and> \<bar>s\<bar> \<le> pow2 9"
    proof (cases "l \<le> 1 / 2")
      case True
      with quotient_returns [OF r1 sm] show ?thesis by simp
    next
      case False
      from mx have "\<bar>2 - mx\<bar> \<le> pow2 1" unfolding pow2_values by linarith
      from fsub_returns [OF this] obtain t where t: "fsub 2 mx = Inr t" "\<bar>t\<bar> \<le> pow2 1" by auto
      from mx have "pow2 0 \<le> 2 - mx" unfolding pow2_values by linarith
      from fround_ge_pow2 [OF this] t(1) have t1: "1 \<le> t" by (simp add: fsub_def pow2_values)
      from t(2) t1 mx have "\<bar>t - mn\<bar> \<le> pow2 1" unfolding pow2_values by linarith
      from fsub_returns [OF this] obtain u where u: "fsub t mn = Inr u" by auto
      from t1 gap mx have "pow2 (- 9) \<le> t - mn" by linarith
      from fround_ge_pow2 [OF this] u have "pow2 (- 9) \<le> u" by (simp add: fsub_def)
      from quotient_returns [OF r1 this] False t(1) u show ?thesis
        by (simp add: and_then_Inr_eq)
    qed
    then obtain s where
      s: "(if l \<le> 1 / 2 then fdiv rangec sumc
           else and_then (fsub 2 mx) (\<lambda>t. and_then (fsub t mn) (\<lambda>u. fdiv rangec u))) = Inr s"
         "\<bar>s\<bar> \<le> pow2 9" by blast
    have diff: "\<exists>q. and_then (fsub mx v) (\<lambda>t. fdiv t rangec) = Inr q \<and> \<bar>q\<bar> \<le> pow2 9"
      if "0 \<le> v" "v \<le> mx" for v
    proof -
      from that mx have "\<bar>mx - v\<bar> \<le> pow2 0" unfolding pow2_values by linarith
      from fsub_returns [OF this] obtain t where t: "fsub mx v = Inr t" "\<bar>t\<bar> \<le> 1"
        by (auto simp: pow2_values)
      from quotient_returns [OF t(2) rg] t(1) show ?thesis by (simp add: and_then_Inr_eq)
    qed
    from diff [OF r(1) c(1)] diff [OF g(1) c(2)] diff [OF b(1) c(3)] obtain rc gc bc where
      q: "and_then (fsub mx r) (\<lambda>t. fdiv t rangec) = Inr rc"
         "and_then (fsub mx g) (\<lambda>t. fdiv t rangec) = Inr gc"
         "and_then (fsub mx b) (\<lambda>t. fdiv t rangec) = Inr bc"
      and qb: "\<bar>rc\<bar> \<le> 512" "\<bar>gc\<bar> \<le> 512" "\<bar>bc\<bar> \<le> 512"
      by (auto simp: pow2_values)
    have "\<exists>h. (if r = mx then fsub bc gc
                else if g = mx then and_then (fadd 2 rc) (\<lambda>t. fsub t bc)
                else and_then (fadd 4 gc) (\<lambda>t. fsub t rc)) = Inr h \<and> \<bar>h\<bar> \<le> pow2 11"
    proof -
      have two: "\<exists>h. and_then (fadd n p) (\<lambda>t. fsub t q) = Inr h \<and> \<bar>h\<bar> \<le> pow2 11"
        if "\<bar>n\<bar> \<le> 4" "\<bar>p\<bar> \<le> 512" "\<bar>q\<bar> \<le> 512" for n p q
      proof -
        from that have "\<bar>n + p\<bar> \<le> pow2 10" unfolding pow2_values by linarith
        from fadd_returns [OF this] obtain t where t: "fadd n p = Inr t" "\<bar>t\<bar> \<le> 1024"
          by (auto simp: pow2_values)
        from t(2) that have "\<bar>t - q\<bar> \<le> pow2 11" unfolding pow2_values by linarith
        from fsub_returns [OF this] t(1) show ?thesis by (simp add: and_then_Inr_eq)
      qed
      from qb have "\<bar>bc - gc\<bar> \<le> pow2 11" unfolding pow2_values by linarith
      from fsub_returns [OF this] two [of 2 rc bc] two [of 4 gc rc] qb show ?thesis by simp
    qed
    then obtain h where
      h: "(if r = mx then fsub bc gc
           else if g = mx then and_then (fadd 2 rc) (\<lambda>t. fsub t bc)
           else and_then (fadd 4 gc) (\<lambda>t. fsub t rc)) = Inr h" "\<bar>h\<bar> \<le> pow2 11" by blast
    from h(2) have "\<bar>h / 6\<bar> \<le> pow2 11" by simp
    from fdiv_returns [OF _ this] obtain h6 where h6: "fdiv h 6 = Inr h6" by auto
    from fmod_one obtain h' where h': "fmod h6 1 = Inr h'" "0 \<le> h'" "h' \<le> 1" by blast
    have "rgb_to_hls r g b = Inr (h', l, s)"
      unfolding rgb_to_hls_def Let_def mx_def [symmetric] mn_def [symmetric]
      by (simp only: sumc(1) rangec(1) l(1) and_then_Inr_eq if_not_P [OF False] s(1) q h(1) h6 h'(1))
    with h' l(2) s(2) show ?thesis by (simp add: pow2_values)
  qed
qed

lemma hls_to_rgb_returns:
  assumes h: "\<bar>h\<bar> \<le> 1" and l: "\<bar>l\<bar> \<le> pow2 k" and s: "\<bar>s\<bar> \<le> pow2 9"
    and k: "0 \<le> k" "k \<le> 988"
  shows "\<exists>r g b. hls_to_rgb h l s = Inr (r, g, b)
           \<and> \<bar>r\<bar> \<le> pow2 (k + 17) \<and> \<bar>g\<bar> \<le> pow2 (k + 17) \<and> \<bar>b\<bar> \<le> pow2 (k + 17)"
proof (cases "s = 0")
  case True
  from k(1) have "pow2 k \<le> pow2 (k + 17)" by (simp add: pow2_le_iff)
  with l True show ?thesis by (simp add: hls_to_rgb_def)
next
  case False
  define P where "P = pow2 k"
  from k(1) have "pow2 0 \<le> pow2 k" by (simp only: pow2_le_iff)
  then have P: "1 \<le> P" by (simp add: P_def pow2_values)
  note sh = pow2_shift [of k, folded P_def] pow2_values
  from l have lP: "\<bar>l\<bar> \<le> P" by (simp add: P_def)
  from s have s9: "\<bar>s\<bar> \<le> 512" by (simp add: pow2_values)
  have prod: "\<bar>l * t\<bar> \<le> c * P" if "\<bar>t\<bar> \<le> c" for t c
  proof -
    from lP that have "\<bar>l\<bar> * \<bar>t\<bar> \<le> P * c" by (intro mult_mono) simp_all
    then show ?thesis by (simp add: abs_mult mult.commute)
  qed
  have "\<exists>m2. (if l \<le> 1 / 2 then and_then (fadd 1 s) (\<lambda>t. fmul l t)
               else and_then (fadd l s) (\<lambda>t. and_then (fmul l s) (\<lambda>u. fsub t u))) = Inr m2
             \<and> \<bar>m2\<bar> \<le> pow2 (k + 11)"
  proof (cases "l \<le> 1 / 2")
    case True
    from s9 have "\<bar>1 + s\<bar> \<le> pow2 10" unfolding pow2_values by linarith
    from fadd_returns [OF this] obtain t where t: "fadd 1 s = Inr t" "\<bar>t\<bar> \<le> 1024"
      by (auto simp: pow2_values)
    from prod [OF t(2)] P have "\<bar>l * t\<bar> \<le> pow2 (k + 11)" unfolding sh by linarith
    from fmul_returns [OF this] k True t(1) show ?thesis by (simp add: and_then_Inr_eq)
  next
    case False
    from lP s9 P have "\<bar>l + s\<bar> \<le> pow2 (k + 10)" unfolding sh by linarith
    from fadd_returns [OF this] k obtain t where t: "fadd l s = Inr t" "\<bar>t\<bar> \<le> pow2 (k + 10)"
      by auto
    from prod [OF s9] have "\<bar>l * s\<bar> \<le> pow2 (k + 9)" unfolding sh by simp
    from fmul_returns [OF this] k obtain u where u: "fmul l s = Inr u" "\<bar>u\<bar> \<le> pow2 (k + 9)"
      by auto
    from t(2) u(2) P have "\<bar>t - u\<bar> \<le> pow2 (k + 11)" unfolding sh by linarith
    from fsub_returns [OF this] k False t(1) u(1) show ?thesis by (simp add: and_then_Inr_eq)
  qed
  then obtain m2 where
    m2: "(if l \<le> 1 / 2 then and_then (fadd 1 s) (\<lambda>t. fmul l t)
          else and_then (fadd l s) (\<lambda>t. and_then (fmul l s) (\<lambda>u. fsub t u))) = Inr m2"
        "\<bar>m2\<bar> \<le> pow2 (k + 11)" by blast
  from lP have "\<bar>2 * l\<bar> \<le> pow2 (k + 1)" unfolding sh by simp
  from fmul_returns [OF this] k obtain t where t: "fmul 2 l = Inr t" "\<bar>t\<bar> \<le> pow2 (k + 1)"
    by auto
  from t(2) m2(2) P have "\<bar>t - m2\<bar> \<le> pow2 (k + 12)" unfolding sh by linarith
  from fsub_returns [OF this] k obtain m1 where m1: "fsub t m2 = Inr m1" "\<bar>m1\<bar> \<le> pow2 (k + 12)"
    by auto
  from m2(2) P have m2': "\<bar>m2\<bar> \<le> pow2 (k + 12)" unfolding sh by linarith
  from constants_return obtain one_third where
    c: "ONE_THIRD = Inr one_third" and c1: "\<bar>one_third\<bar> \<le> 1" by blast
  have v: "\<exists>v. colorsys_v m1 m2 hue = Inr v \<and> \<bar>v\<bar> \<le> pow2 (k + 17)" for hue
    using colorsys_v_returns [OF m1(2) m2', of hue] k by (simp add: add.commute add.left_commute)
  have w: "\<exists>v. and_then m (colorsys_v m1 m2) = Inr v \<and> \<bar>v\<bar> \<le> pow2 (k + 17)"
    if "\<exists>x. m = Inr x" for m
    using that v by (auto simp: and_then_Inr_eq)
  from h c1 have "\<bar>h + one_third\<bar> \<le> pow2 1" "\<bar>h - one_third\<bar> \<le> pow2 1"
    unfolding pow2_values by linarith+
  then have hr: "\<exists>x. fadd h one_third = Inr x" and hb: "\<exists>x. fsub h one_third = Inr x"
    using fadd_returns [of h one_third 1] fsub_returns [of h one_third 1] by auto
  from w [OF hr] v [of h] w [OF hb] obtain r g b where
    "and_then (fadd h one_third) (colorsys_v m1 m2) = Inr r" "\<bar>r\<bar> \<le> pow2 (k + 17)"
    "colorsys_v m1 m2 h = Inr g" "\<bar>g\<bar> \<le> pow2 (k + 17)"
    "and_then (fsub h one_third) (colorsys_v m1 m2) = Inr b" "\<bar>b\<bar> \<le> pow2 (k + 17)"
    by blast
  then show ?thesis
    unfolding hls_to_rgb_def
    by (simp only: if_not_P [OF False] m2(1) t(1) m1(1) c and_then_Inr_eq) simp
qed

text \<open>
  The float operations of \<open>lighten\<close> return for every three channels and every amount of
  magnitude at most \<open>2 ^ 980\<close>: no division is by zero and no result overflows.
\<close>

lemma lighten_floats_return:
  assumes r: "0 \<le> r" "r \<le> 255" and g: "0 \<le> g" "g \<le> 255" and b: "0 \<le> b" "b \<le> 255"
    and amount: "\<bar>amount\<bar> \<le> pow2 980"
  shows "\<exists>rf gf bf h l s la r' g' b' x y z.
           fdiv (of_int r) 255 = Inr rf \<and> fdiv (of_int g) 255 = Inr gf
           \<and> fdiv (of_int b) 255 = Inr bf
           \<and> rgb_to_hls rf gf bf = Inr (h, l, s)
           \<and> fadd l amount = Inr la
           \<and> hls_to_rgb h (min 1 la) s = Inr (r', g', b')
           \<and> fmul r' 255 = Inr x \<and> fmul g' 255 = Inr y \<and> fmul b' 255 = Inr z"
proof -
  from channel_float [OF r] channel_float [OF g] channel_float [OF b] obtain rf gf bf where
    f: "fdiv (of_int r) 255 = Inr rf" "fdiv (of_int g) 255 = Inr gf" "fdiv (of_int b) 255 = Inr bf"
    and rf: "0 \<le> rf" "rf \<le> 1" and gf: "0 \<le> gf" "gf \<le> 1" and bf: "0 \<le> bf" "bf \<le> 1"
    and e: "\<bar>rf - of_int r / 255\<bar> \<le> pow2 (- 53)" "\<bar>gf - of_int g / 255\<bar> \<le> pow2 (- 53)"
      "\<bar>bf - of_int b / 255\<bar> \<le> pow2 (- 53)"
    by blast
  have sep: "pow2 (- 9) \<le> \<bar>x - y\<bar>" if "x \<in> {rf, gf, bf}" "y \<in> {rf, gf, bf}" "x \<noteq> y" for x y
  proof -
    from that(1) f e obtain v where v: "fdiv (of_int v) 255 = Inr x" "\<bar>x - of_int v / 255\<bar> \<le> pow2 (- 53)"
      by auto
    from that(2) f e obtain w where w: "fdiv (of_int w) 255 = Inr y" "\<bar>y - of_int w / 255\<bar> \<le> pow2 (- 53)"
      by auto
    from channel_separation [OF v(1) w(1) v(2) w(2) that(3)] show ?thesis .
  qed
  from rgb_to_hls_returns [OF rf gf bf sep] obtain h l s where
    hls: "rgb_to_hls rf gf bf = Inr (h, l, s)" and h: "0 \<le> h" "h \<le> 1" and l: "\<bar>l\<bar> \<le> 1"
    and s: "\<bar>s\<bar> \<le> pow2 9"
    by blast
  have one: "(1 :: rat) \<le> pow2 980" using pow2_le_iff [of 0 980] by (simp add: pow2_values)
  have big: "pow2 981 = 2 * pow2 980" using pow2_Suc [of 980] by simp
  from l amount one have "\<bar>l + amount\<bar> \<le> pow2 981" unfolding big by linarith
  from fadd_returns [OF this] obtain la where la: "fadd l amount = Inr la" "\<bar>la\<bar> \<le> pow2 981"
    by auto
  from la(2) one have "\<bar>min 1 la\<bar> \<le> pow2 981" unfolding big min_def by (simp split: if_splits)
  from hls_to_rgb_returns [OF _ this s, of h] h obtain r' g' b' where
    rgb: "hls_to_rgb h (min 1 la) s = Inr (r', g', b')"
    and bd: "\<bar>r'\<bar> \<le> pow2 (981 + 17)" "\<bar>g'\<bar> \<le> pow2 (981 + 17)" "\<bar>b'\<bar> \<le> pow2 (981 + 17)"
    by auto
  have scale: "\<exists>x. fmul v 255 = Inr x" if "\<bar>v\<bar> \<le> pow2 (981 + 17)" for v
  proof -
    from that have "\<bar>v\<bar> \<le> pow2 998" by simp
    then have "\<bar>v\<bar> * 255 \<le> pow2 998 * pow2 8" by (intro mult_mono) (simp_all add: pow2_values)
    then have "\<bar>v * 255\<bar> \<le> pow2 (998 + 8)" unfolding pow2_add by (simp add: abs_mult)
    from fmul_returns [OF this] show ?thesis by auto
  qed
  from scale [OF bd(1)] scale [OF bd(2)] scale [OF bd(3)] f hls la(1) rgb show ?thesis by blast
qed

section \<open>The floats of the grey channel values, checked\<close>






lemma hex_pair_table:
  "list_all (\<lambda>a. list_all (\<lambda>b.
      int_base16 [a, b] = Inr (hex_value [a, b])
      \<and> 0 \<le> hex_value [a, b] \<and> hex_value [a, b] \<le> 255
      \<and> format_02x (hex_value [a, b]) = lower [a, b]) upper_hex) upper_hex"
  by code_simp

lemma upper_char_table: "list_all (\<lambda>c. upper_char c \<in> set upper_hex) ''0123456789ABCDEFabcdef''"
  by code_simp






section \<open>The format of the result of \<open>lighten\<close>\<close>

lemma lower_hex_nth_table:
  "list_all (\<lambda>k. ''0123456789abcdef'' ! k \<in> set lower_hex) [0..<16]"
  by code_simp

lemma lower_hex_nth: "k < 16 \<Longrightarrow> ''0123456789abcdef'' ! k \<in> set lower_hex"
proof -
  assume "k < 16"
  then have "k \<in> set [0..<16]" by simp
  with lower_hex_nth_table show ?thesis unfolding list_all_iff by (rule bspec)
qed

lemma zero_lower_hex: "CHR ''0'' \<in> set lower_hex"
  by (simp add: lower_hex_def)

lemma hex_digits_chars: "list_all (\<lambda>ch. ch \<in> set lower_hex) (hex_digits n)"
proof (induction n rule: hex_digits.induct)
  case (1 n)
  show ?case
  proof (cases "n < 16")
    case True
    then show ?thesis by (subst hex_digits.simps) (simp add: lower_hex_nth)
  next
    case False
    then have "list_all (\<lambda>ch. ch \<in> set lower_hex) (hex_digits (n div 16))" by (rule "1.IH")
    with False show ?thesis by (subst hex_digits.simps) (simp add: lower_hex_nth)
  qed
qed

lemma hex_digits_length: "n < 256 \<Longrightarrow> length (hex_digits n) = (if n < 16 then 1 else 2)"
proof -
  assume a: "n < 256"
  show ?thesis
  proof (cases "n < 16")
    case True
    then show ?thesis by (subst hex_digits.simps) simp
  next
    case False
    with a have "n div 16 < 16" by simp
    then have "length (hex_digits (n div 16)) = 1" by (subst hex_digits.simps) simp
    with False show ?thesis by (subst hex_digits.simps) simp
  qed
qed

lemma format_02x_chars:
  "list_all (\<lambda>ch. ch \<in> set (lower_hex @ ''-'')) (format_02x n)"
proof -
  have w: "list_all (\<lambda>ch. ch \<in> set (lower_hex @ ''-'')) (hex_digits k)" for k
    using hex_digits_chars [of k] by (simp add: list_all_iff)
  show ?thesis
  proof (cases "n < 0")
    case True
    then show ?thesis using w [of "nat (- n)"] by (simp add: format_02x_def)
  next
    case False
    then show ?thesis
      using w [of "nat n"] zero_lower_hex by (simp add: format_02x_def Let_def)
  qed
qed

lemma format_02x_channel:
  assumes "0 \<le> n" and "n < 256"
  shows "length (format_02x n) = 2 \<and> list_all (\<lambda>ch. ch \<in> set lower_hex) (format_02x n)"
proof -
  from assms have "nat n < 256" by simp
  from hex_digits_length [OF this] have l: "length (hex_digits (nat n)) = (if nat n < 16 then 1 else 2)" .
  from assms(1) have f: "format_02x n =
      (if length (hex_digits (nat n)) < 2 then CHR ''0'' # hex_digits (nat n) else hex_digits (nat n))"
    by (simp add: format_02x_def Let_def)
  show ?thesis
    unfolding f using l hex_digits_chars [of "nat n"] zero_lower_hex by simp
qed

lemma py_int_truncates:
  "\<bar>of_int (py_int x)\<bar> \<le> \<bar>x\<bar> \<and> \<bar>x - of_int (py_int x)\<bar> < 1"
proof (cases "0 \<le> x")
  case True
  then have "0 \<le> \<lfloor>x\<rfloor>" by simp
  with True show ?thesis by (simp add: py_int_def) linarith
next
  case False
  then have "\<lceil>x\<rceil> \<le> 0" by (simp add: ceiling_le_iff)
  with False show ?thesis by (simp add: py_int_def) linarith
qed

lemma py_int_channel: "0 \<le> x \<Longrightarrow> x < 256 \<Longrightarrow> 0 \<le> py_int x \<and> py_int x < 256"
  by (simp add: py_int_def floor_less_iff)

lemma lighten_truncates_lower_case:
  assumes "lighten c amount = Inr s"
  shows "\<exists>x y z. lighten_channels c amount = Inr (x, y, z)
           \<and> s = CHR ''#'' # format_02x (py_int x) @ format_02x (py_int y) @ format_02x (py_int z)
           \<and> \<bar>x - of_int (py_int x)\<bar> < 1 \<and> \<bar>of_int (py_int x)\<bar> \<le> \<bar>x\<bar>
           \<and> \<bar>y - of_int (py_int y)\<bar> < 1 \<and> \<bar>of_int (py_int y)\<bar> \<le> \<bar>y\<bar>
           \<and> \<bar>z - of_int (py_int z)\<bar> < 1 \<and> \<bar>of_int (py_int z)\<bar> \<le> \<bar>z\<bar>
           \<and> list_all (\<lambda>ch. ch \<in> set (lower_hex @ ''-'')) (tl s)
           \<and> (0 \<le> x \<and> x < 256 \<and> 0 \<le> y \<and> y < 256 \<and> 0 \<le> z \<and> z < 256 \<longrightarrow>
                length s = 7 \<and> list_all (\<lambda>ch. ch \<in> set lower_hex) (tl s))"
proof -
  from assms obtain x y z where ch: "lighten_channels c amount = Inr (x, y, z)"
    and s: "s = CHR ''#'' # format_02x (py_int x) @ format_02x (py_int y) @ format_02x (py_int z)"
    by (auto simp: lighten_def and_then_def split: sum.splits)
  have chars: "list_all (\<lambda>ch. ch \<in> set (lower_hex @ ''-'')) (tl s)"
    unfolding s using format_02x_chars by simp
  have inrange: "length s = 7 \<and> list_all (\<lambda>ch. ch \<in> set lower_hex) (tl s)"
    if "0 \<le> x \<and> x < 256 \<and> 0 \<le> y \<and> y < 256 \<and> 0 \<le> z \<and> z < 256"
  proof -
    from that py_int_channel
    have "0 \<le> py_int x \<and> py_int x < 256" "0 \<le> py_int y \<and> py_int y < 256"
      "0 \<le> py_int z \<and> py_int z < 256" by simp_all
    then have "length (format_02x (py_int x)) = 2 \<and> list_all (\<lambda>ch. ch \<in> set lower_hex) (format_02x (py_int x))"
      "length (format_02x (py_int y)) = 2 \<and> list_all (\<lambda>ch. ch \<in> set lower_hex) (format_02x (py_int y))"
      "length (format_02x (py_int z)) = 2 \<and> list_all (\<lambda>ch. ch \<in> set lower_hex) (format_02x (py_int z))"
      using format_02x_channel by simp_all
    then show ?thesis unfolding s by simp
  qed
  from ch s chars inrange py_int_truncates [of x] py_int_truncates [of y] py_int_truncates [of z]
  show ?thesis by blast
qed

section \<open>Canonical colours\<close>

lemma upper_char_hex: "is_hex ch \<Longrightarrow> upper_char ch \<in> set upper_hex"
proof -
  assume "is_hex ch"
  then have "ch \<in> set ''0123456789ABCDEFabcdef''" unfolding is_hex_def .
  with upper_char_table show ?thesis unfolding list_all_iff by (rule bspec)
qed

lemma canonical_digits:
  assumes "validate c context = Inr c"
  shows "\<exists>a1 b1 a2 b2 a3 b3. strip_hash c = [a1, b1, a2, b2, a3, b3] \<and> c = CHR ''#'' # strip_hash c
           \<and> a1 \<in> set upper_hex \<and> b1 \<in> set upper_hex \<and> a2 \<in> set upper_hex
           \<and> b2 \<in> set upper_hex \<and> a3 \<in> set upper_hex \<and> b3 \<in> set upper_hex"
proof -
  from assms obtain d where d: "is_hex6 d" "c = CHR ''#'' # upper d"
    using validate_Inr_form by blast
  from d(1) have u: "is_hex6 (upper d)" by (rule is_hex6_upper)
  with d(2) have s: "strip_hash c = upper d" by (simp add: strip_hash_marker_hex6)
  from d(1) have "length (upper d) = 6" by (simp add: is_hex6_def upper_def)
  then obtain a1 b1 a2 b2 a3 b3 where l: "upper d = [a1, b1, a2, b2, a3, b3]"
    by (auto simp: eval_nat_numeral length_Suc_conv)
  from d(1) have "\<forall>ch \<in> set (upper d). ch \<in> set upper_hex"
    by (auto simp: is_hex6_def upper_def list_all_iff upper_char_hex)
  with l have "a1 \<in> set upper_hex \<and> b1 \<in> set upper_hex \<and> a2 \<in> set upper_hex
           \<and> b2 \<in> set upper_hex \<and> a3 \<in> set upper_hex \<and> b3 \<in> set upper_hex"
    by simp
  with s l d(2) show ?thesis by simp
qed

lemma hex_pair:
  assumes "a \<in> set upper_hex" and "b \<in> set upper_hex"
  shows "int_base16 [a, b] = Inr (hex_value [a, b]) \<and> 0 \<le> hex_value [a, b]
         \<and> hex_value [a, b] \<le> 255 \<and> format_02x (hex_value [a, b]) = lower [a, b]"
  using hex_pair_table assms unfolding list_all_iff by blast




lemma lighten_steps:
  assumes "validate c context = Inr c" and "lighten c amount = Inr s"
  shows "\<exists>r g b rf gf bf h l sat la r' g' b' x y z.
           r = hex_value (take 2 (strip_hash c)) \<and> g = hex_value (take 2 (drop 2 (strip_hash c)))
           \<and> b = hex_value (drop 4 (strip_hash c))
           \<and> 0 \<le> r \<and> r \<le> 255 \<and> 0 \<le> g \<and> g \<le> 255 \<and> 0 \<le> b \<and> b \<le> 255
           \<and> fdiv (of_int r) 255 = Inr rf \<and> fdiv (of_int g) 255 = Inr gf
           \<and> fdiv (of_int b) 255 = Inr bf
           \<and> rgb_to_hls rf gf bf = Inr (h, l, sat)
           \<and> fadd l amount = Inr la
           \<and> hls_to_rgb h (min 1 la) sat = Inr (r', g', b')
           \<and> fmul r' 255 = Inr x \<and> fmul g' 255 = Inr y \<and> fmul b' 255 = Inr z
           \<and> s = CHR ''#'' # format_02x (py_int x) @ format_02x (py_int y) @ format_02x (py_int z)
           \<and> \<bar>x - of_int (py_int x)\<bar> < 1 \<and> \<bar>of_int (py_int x)\<bar> \<le> \<bar>x\<bar>
           \<and> \<bar>y - of_int (py_int y)\<bar> < 1 \<and> \<bar>of_int (py_int y)\<bar> \<le> \<bar>y\<bar>
           \<and> \<bar>z - of_int (py_int z)\<bar> < 1 \<and> \<bar>of_int (py_int z)\<bar> \<le> \<bar>z\<bar>
           \<and> list_all (\<lambda>ch. ch \<in> set (lower_hex @ ''-'')) (tl s)
           \<and> (0 \<le> x \<and> x < 256 \<and> 0 \<le> y \<and> y < 256 \<and> 0 \<le> z \<and> z < 256 \<longrightarrow>
                length s = 7 \<and> list_all (\<lambda>ch. ch \<in> set lower_hex) (tl s))"
proof -
  from canonical_digits [OF assms(1)] obtain a1 b1 a2 b2 a3 b3 where
    sh: "strip_hash c = [a1, b1, a2, b2, a3, b3]"
    and h: "a1 \<in> set upper_hex" "b1 \<in> set upper_hex" "a2 \<in> set upper_hex"
      "b2 \<in> set upper_hex" "a3 \<in> set upper_hex" "b3 \<in> set upper_hex"
    by blast
  let ?r = "hex_value [a1, b1]" and ?g = "hex_value [a2, b2]" and ?b = "hex_value [a3, b3]"
  from hex_pair [OF h(1,2)] hex_pair [OF h(3,4)] hex_pair [OF h(5,6)]
  have p: "int_base16 [a1, b1] = Inr ?r" "int_base16 [a2, b2] = Inr ?g" "int_base16 [a3, b3] = Inr ?b"
    and rng: "0 \<le> ?r" "?r \<le> 255" "0 \<le> ?g" "?g \<le> 255" "0 \<le> ?b" "?b \<le> 255"
    by simp_all
  have l: "lstrip_chars ''#'' c = [a1, b1, a2, b2, a3, b3]"
    using sh by (simp add: strip_hash_def)
  from lighten_truncates_lower_case [OF assms(2)] obtain x y z where
    ch: "lighten_channels c amount = Inr (x, y, z)"
    and rest: "s = CHR ''#'' # format_02x (py_int x) @ format_02x (py_int y) @ format_02x (py_int z)"
      "\<bar>x - of_int (py_int x)\<bar> < 1" "\<bar>of_int (py_int x)\<bar> \<le> \<bar>x\<bar>"
      "\<bar>y - of_int (py_int y)\<bar> < 1" "\<bar>of_int (py_int y)\<bar> \<le> \<bar>y\<bar>"
      "\<bar>z - of_int (py_int z)\<bar> < 1" "\<bar>of_int (py_int z)\<bar> \<le> \<bar>z\<bar>"
      "list_all (\<lambda>ch. ch \<in> set (lower_hex @ ''-'')) (tl s)"
      "0 \<le> x \<and> x < 256 \<and> 0 \<le> y \<and> y < 256 \<and> 0 \<le> z \<and> z < 256 \<longrightarrow>
         length s = 7 \<and> list_all (\<lambda>ch. ch \<in> set lower_hex) (tl s)"
    by blast
  from ch obtain rf gf bf h l' sat la r' g' b' where steps:
    "fdiv (of_int ?r) 255 = Inr rf" "fdiv (of_int ?g) 255 = Inr gf" "fdiv (of_int ?b) 255 = Inr bf"
    "rgb_to_hls rf gf bf = Inr (h, l', sat)" "fadd l' amount = Inr la"
    "hls_to_rgb h (min 1 la) sat = Inr (r', g', b')"
    "fmul r' 255 = Inr x" "fmul g' 255 = Inr y" "fmul b' 255 = Inr z"
    unfolding lighten_channels_def Let_def l
    by (auto simp: p and_then_def split: sum.splits prod.splits)
  from sh have tk: "take 2 (strip_hash c) = [a1, b1]" "take 2 (drop 2 (strip_hash c)) = [a2, b2]"
    "drop 4 (strip_hash c) = [a3, b3]" by simp_all
  from rng steps rest show ?thesis unfolding tk by blast
qed

lemma lighten_returns:
  assumes "validate c context = Inr c" and "\<bar>amount\<bar> \<le> pow2 980"
  shows "\<exists>s. lighten c amount = Inr s"
proof -
  from canonical_digits [OF assms(1)] obtain a1 b1 a2 b2 a3 b3 where
    sh: "strip_hash c = [a1, b1, a2, b2, a3, b3]"
    and h: "a1 \<in> set upper_hex" "b1 \<in> set upper_hex" "a2 \<in> set upper_hex"
      "b2 \<in> set upper_hex" "a3 \<in> set upper_hex" "b3 \<in> set upper_hex"
    by blast
  let ?r = "hex_value [a1, b1]" and ?g = "hex_value [a2, b2]" and ?b = "hex_value [a3, b3]"
  from hex_pair [OF h(1,2)] hex_pair [OF h(3,4)] hex_pair [OF h(5,6)]
  have p: "int_base16 [a1, b1] = Inr ?r" "int_base16 [a2, b2] = Inr ?g" "int_base16 [a3, b3] = Inr ?b"
    and rng: "0 \<le> ?r" "?r \<le> 255" "0 \<le> ?g" "?g \<le> 255" "0 \<le> ?b" "?b \<le> 255"
    by simp_all
  have l: "lstrip_chars ''#'' c = [a1, b1, a2, b2, a3, b3]"
    using sh by (simp add: strip_hash_def)
  from lighten_floats_return [OF rng assms(2)] obtain rf gf bf h l' sat la r' g' b' x y z where
    "fdiv (of_int ?r) 255 = Inr rf" "fdiv (of_int ?g) 255 = Inr gf" "fdiv (of_int ?b) 255 = Inr bf"
    "rgb_to_hls rf gf bf = Inr (h, l', sat)" "fadd l' amount = Inr la"
    "hls_to_rgb h (min 1 la) sat = Inr (r', g', b')"
    "fmul r' 255 = Inr x" "fmul g' 255 = Inr y" "fmul b' 255 = Inr z"
    by blast
  then have "lighten_channels c amount = Inr (x, y, z)"
    unfolding lighten_channels_def Let_def l by (simp add: p and_then_Inr_eq)
  then show ?thesis by (simp add: lighten_def and_then_Inr_eq)
qed

text \<open>
  Claim C3, as amended: for every valid canonical colour and every amount of magnitude at
  most \<open>2 ^ 980\<close>, \<open>lighten\<close> returns, and its result comes from these steps: the three
  channels, integers from 0 to 255, are divided by 255 and converted to HLS; the amount is
  added to the lightness and the sum is capped at 1 (there is no lower bound); the
  conversion back to RGB gives three floats, each is multiplied by 255, and its integer
  part towards zero is taken (it is not rounded to the nearest integer and not clamped to
  the range 0 to 255); the result is one marker followed by the three integers in the
  format \<open>02x\<close>, with lower-case hex digits. When the three products lie from 0 up to, not
  including, 256, the result is the marker and 6 lower-case hex digits.
\<close>

theorem lighten_pipeline:
  assumes "validate c context = Inr c" and "\<bar>amount\<bar> \<le> pow2 980"
  shows "\<exists>s. lighten c amount = Inr s \<and>
         (\<exists>r g b rf gf bf h l sat la r' g' b' x y z.
            r = hex_value (take 2 (strip_hash c)) \<and> g = hex_value (take 2 (drop 2 (strip_hash c)))
            \<and> b = hex_value (drop 4 (strip_hash c))
            \<and> 0 \<le> r \<and> r \<le> 255 \<and> 0 \<le> g \<and> g \<le> 255 \<and> 0 \<le> b \<and> b \<le> 255
            \<and> fdiv (of_int r) 255 = Inr rf \<and> fdiv (of_int g) 255 = Inr gf
            \<and> fdiv (of_int b) 255 = Inr bf
            \<and> rgb_to_hls rf gf bf = Inr (h, l, sat)
            \<and> fadd l amount = Inr la
            \<and> hls_to_rgb h (min 1 la) sat = Inr (r', g', b')
            \<and> fmul r' 255 = Inr x \<and> fmul g' 255 = Inr y \<and> fmul b' 255 = Inr z
            \<and> s = CHR ''#'' # format_02x (py_int x) @ format_02x (py_int y) @ format_02x (py_int z)
            \<and> \<bar>x - of_int (py_int x)\<bar> < 1 \<and> \<bar>of_int (py_int x)\<bar> \<le> \<bar>x\<bar>
            \<and> \<bar>y - of_int (py_int y)\<bar> < 1 \<and> \<bar>of_int (py_int y)\<bar> \<le> \<bar>y\<bar>
            \<and> \<bar>z - of_int (py_int z)\<bar> < 1 \<and> \<bar>of_int (py_int z)\<bar> \<le> \<bar>z\<bar>
            \<and> list_all (\<lambda>ch. ch \<in> set (lower_hex @ ''-'')) (tl s)
            \<and> (0 \<le> x \<and> x < 256 \<and> 0 \<le> y \<and> y < 256 \<and> 0 \<le> z \<and> z < 256 \<longrightarrow>
                 length s = 7 \<and> list_all (\<lambda>ch. ch \<in> set lower_hex) (tl s)))"
proof -
  from lighten_returns [OF assms] obtain s where s: "lighten c amount = Inr s" by blast
  from s lighten_steps [OF assms(1) s] show ?thesis by blast
qed

theorem lighten_pipeline_witness:
  "validate ''#000000'' [] = Inr ''#000000''
   \<and> \<bar>3242591731706757 / 18014398509481984\<bar> \<le> pow2 980
   \<and> lighten ''#000000'' (3242591731706757 / 18014398509481984) = Inr ''#2d2d2d''
   \<and> (\<exists>h l sat la r' g' b' x y z.
          rgb_to_hls 0 0 0 = Inr (h, l, sat)
          \<and> fadd l (3242591731706757 / 18014398509481984) = Inr la
          \<and> hls_to_rgb h (min 1 la) sat = Inr (r', g', b')
          \<and> fmul r' 255 = Inr x \<and> fmul g' 255 = Inr y \<and> fmul b' 255 = Inr z
          \<and> ''#2d2d2d'' = CHR ''#'' # format_02x (py_int x) @ format_02x (py_int y) @ format_02x (py_int z)
          \<and> \<bar>x - of_int (py_int x)\<bar> < 1)"
proof -
  have a: "validate ''#000000'' [] = Inr ''#000000''" by code_simp
  have "pow2 0 \<le> pow2 980" by (simp only: pow2_le_iff)
  then have amt: "\<bar>3242591731706757 / 18014398509481984\<bar> \<le> pow2 980"
    by (simp add: pow2_values)
  have b: "lighten ''#000000'' (3242591731706757 / 18014398509481984) = Inr ''#2d2d2d''"
    by code_simp
  have h: "hex_value (take 2 (strip_hash ''#000000'')) = 0"
    "hex_value (take 2 (drop 2 (strip_hash ''#000000''))) = 0"
    "hex_value (drop 4 (strip_hash ''#000000'')) = 0"
    by code_simp+
  have d: "fdiv 0 255 = Inr 0" by (simp add: fdiv_def fround_zero)
  from lighten_pipeline [OF a amt] obtain s rf gf bf h l sat la r' g' b' x y z where
    s: "lighten ''#000000'' (3242591731706757 / 18014398509481984) = Inr s" and t:
    "fdiv (of_int (hex_value (take 2 (strip_hash ''#000000'')))) 255 = Inr rf"
    "fdiv (of_int (hex_value (take 2 (drop 2 (strip_hash ''#000000''))))) 255 = Inr gf"
    "fdiv (of_int (hex_value (drop 4 (strip_hash ''#000000'')))) 255 = Inr bf"
    "rgb_to_hls rf gf bf = Inr (h, l, sat)"
    "fadd l (3242591731706757 / 18014398509481984) = Inr la"
    "hls_to_rgb h (min 1 la) sat = Inr (r', g', b')"
    "fmul r' 255 = Inr x" "fmul g' 255 = Inr y" "fmul b' 255 = Inr z"
    "s = CHR ''#'' # format_02x (py_int x) @ format_02x (py_int y) @ format_02x (py_int z)"
    "\<bar>x - of_int (py_int x)\<bar> < 1"
    by blast
  from s b have sv: "s = ''#2d2d2d''" by simp
  from t(1-3) have z: "rf = 0" "gf = 0" "bf = 0" unfolding h by (simp_all add: d)
  from t(4) have "rgb_to_hls 0 0 0 = Inr (h, l, sat)" unfolding z .
  with t(5-11) have "\<exists>h l sat la r' g' b' x y z.
          rgb_to_hls 0 0 0 = Inr (h, l, sat)
          \<and> fadd l (3242591731706757 / 18014398509481984) = Inr la
          \<and> hls_to_rgb h (min 1 la) sat = Inr (r', g', b')
          \<and> fmul r' 255 = Inr x \<and> fmul g' 255 = Inr y \<and> fmul b' 255 = Inr z
          \<and> ''#2d2d2d'' = CHR ''#'' # format_02x (py_int x) @ format_02x (py_int y) @ format_02x (py_int z)
          \<and> \<bar>x - of_int (py_int x)\<bar> < 1"
    unfolding sv by blast
  with a amt b show ?thesis by (intro conjI)
qed

text \<open>
  Claim C3 as stated fails: for black and the amount 0.18 (the float nearest to 18/100)
  each channel is the float next to 45.9, whose integer part is 45 and whose nearest
  integer is 46; \<open>lighten\<close> returns \<open>#2d2d2d\<close>, with a lower-case digit, where rounding and
  the canonical form would give \<open>#2E2E2E\<close>.
\<close>

theorem lighten_rounding_counterexample:
  "fround (18 / 100) = Inr (3242591731706757 / 18014398509481984)
   \<and> validate ''#000000'' [] = Inr ''#000000''
   \<and> lighten ''#000000'' (3242591731706757 / 18014398509481984) = Inr ''#2d2d2d''
   \<and> lighten_rounding ''#000000'' (3242591731706757 / 18014398509481984) = Inr ''#2E2E2E''"
  by code_simp



section \<open>The data of the semantic artifacts\<close>

lemma validate_Inr_canonical:
  assumes "validate v context = Inr c"
  shows "c = CHR ''#'' # upper (strip_hash (strip v))"
proof -
  from validate_Inr_form [OF assms] obtain d where
    d: "hex_pattern_match (strip v) = Some d" "c = CHR ''#'' # upper d" by blast
  from d(1) have "hex6_optional_marker (strip v)"
    by (rule hex_pattern_match_rejects) (rule strip_no_trailing_newline)
  then have "hex_pattern_match (strip v) = Some (strip_hash (strip v))"
    by (rule hex_pattern_match_accepts)
  with d show ?thesis by simp
qed

lemma validate_items_Inr:
  assumes "validate_items merged = Inr semantic"
  shows "list_all2 (\<lambda>kv kv'. fst kv' = fst kv
            \<and> validate (snd kv) (''semantic.'' @ fst kv) = Inr (snd kv')
            \<and> snd kv' = CHR ''#'' # upper (strip_hash (strip (snd kv)))) merged semantic"
  using assms
proof (induction merged arbitrary: semantic)
  case Nil
  then show ?case by simp
next
  case (Cons kv rest)
  obtain key v where kv: "kv = (key, v)" by (cases kv)
  from Cons.prems obtain v' rest' where
    a: "validate v (''semantic.'' @ key) = Inr v'" and b: "validate_items rest = Inr rest'"
    and c: "semantic = (key, v') # rest'"
    unfolding kv by (auto simp: and_then_def split: sum.splits)
  from Cons.IH [OF b] a validate_Inr_canonical [OF a] show ?case
    unfolding kv c by simp
qed

lemma validate_items_canonical:
  assumes "list_all (\<lambda>kv. validate (snd kv) (''semantic.'' @ fst kv) = Inr (snd kv)) merged"
  shows "validate_items merged = Inr merged"
  using assms
proof (induction merged)
  case Nil
  then show ?case by simp
next
  case (Cons kv rest)
  obtain key v where kv: "kv = (key, v)" by (cases kv)
  from Cons show ?case unfolding kv by (simp add: and_then_def)
qed

lemma write_all_written:
  assumes "write_all steps = (files, r)" and "f \<in> set files"
  shows "Inr f \<in> set steps"
  using assms
proof (induction steps arbitrary: files r rule: write_all.induct)
  case 1
  then show ?case by simp
next
  case (2 e steps)
  then show ?case by simp
next
  case (3 f' steps)
  obtain fs r' where w: "write_all steps = (fs, r')" by (cases "write_all steps")
  from 3 w show ?case by auto
qed

lemma and_then_Inr:
  assumes "and_then m f = Inr y"
  shows "\<exists>x. m = Inr x \<and> f x = Inr y"
  using assms by (cases m) (simp_all add: and_then_def)

lemma generate_fish_theme_name:
  assumes "generate_fish_theme tmpls th semantic = Inr f"
  shows "fst f = ''fish-theme.fish''"
  using assms unfolding generate_fish_theme_def
  by (auto dest!: and_then_Inr)

lemma generate_wofi_colors_name:
  assumes "generate_wofi_colors tmpls th semantic = Inr f"
  shows "fst f = ''wofi-colors.css''"
  using assms unfolding generate_wofi_colors_def
  by (auto dest!: and_then_Inr)

lemma generate_semantic_conf_name:
  assumes "generate_semantic_conf tmpls semantic = Inr f"
  shows "fst f = ''ida-semantic.conf''"
  using assms unfolding generate_semantic_conf_def
  by (auto dest!: and_then_Inr)

lemma generate_semantic_css_content:
  assumes "generate_semantic_css tmpls semantic = Inr f"
  shows "\<exists>tmpl. tmpls ''ida-semantic.css.tmpl'' = Some tmpl
           \<and> f = (''ida-semantic.css'', render_content tmpl semantic)"
  using assms
  by (auto simp: generate_semantic_css_def render_template_def and_then_def split: option.splits)

lemma generate_semantic_fish_content:
  assumes "generate_semantic_fish tmpls semantic = Inr f"
  shows "\<exists>tmpl. tmpls ''ida-semantic.fish.tmpl'' = Some tmpl
           \<and> f = (''ida-semantic.fish'', render_content tmpl semantic)"
  using assms
  by (auto simp: generate_semantic_fish_def render_template_def and_then_def split: option.splits)

text \<open>
  Claim C4, as amended: the semantic stylesheet and the semantic shell-variables file,
  whenever \<open>build\<close> writes one of them, are rendered from the merged semantic map after the
  validation loop: the data has the keys of the merged map, in its order, and for each key
  the value \<open>validate\<close> returns for the merged value, which is the marker followed by the six
  hex digits of the merged value in upper case. The data is the merged map itself when
  every merged value is already in that form.
\<close>

theorem semantic_artifacts_validated:
  assumes "(name, content) \<in> set (written (build b))"
    and "name = ''ida-semantic.css'' \<or> name = ''ida-semantic.fish''"
  shows "\<exists>defaults merged warnings semantic tmpl.
           semantic_json b = Some defaults
           \<and> apply_overrides (global_overrides b) (per_theme_overrides b) defaults = (merged, warnings)
           \<and> validate_items merged = Inr semantic
           \<and> list_all2 (\<lambda>kv kv'. fst kv' = fst kv
                 \<and> validate (snd kv) (''semantic.'' @ fst kv) = Inr (snd kv')
                 \<and> snd kv' = CHR ''#'' # upper (strip_hash (strip (snd kv)))) merged semantic
           \<and> templates b (name @ ''.tmpl'') = Some tmpl
           \<and> content = render_content tmpl semantic
           \<and> (list_all (\<lambda>kv. validate (snd kv) (''semantic.'' @ fst kv) = Inr (snd kv)) merged
                \<longrightarrow> semantic = merged)"
proof -
  from assms(1) obtain th where th: "theme_json b = Some th"
    by (cases "theme_json b") (simp_all add: build_def)
  from assms(1) th obtain defaults where df: "semantic_json b = Some defaults"
    by (cases "semantic_json b") (simp_all add: build_def)
  obtain merged warnings where
    ao: "apply_overrides (global_overrides b) (per_theme_overrides b) defaults = (merged, warnings)"
    by (cases "apply_overrides (global_overrides b) (per_theme_overrides b) defaults")
  from assms(1) th df ao obtain semantic where vi: "validate_items merged = Inr semantic"
    by (cases "validate_items merged") (simp_all add: build_def)
  let ?steps = "[generate_fish_theme (templates b) th semantic,
                 generate_wofi_colors (templates b) th semantic,
                 generate_semantic_conf (templates b) semantic,
                 generate_semantic_css (templates b) semantic,
                 generate_semantic_fish (templates b) semantic]"
  obtain files r where wa: "write_all ?steps = (files, r)" by (cases "write_all ?steps")
  have bb: "build b = \<lparr>written = files, diagnostics = warnings, raised = r\<rparr>"
    using th df ao vi wa by (simp add: build_def)
  with assms(1) have "(name, content) \<in> set files" by simp
  from write_all_written [OF wa this] have "Inr (name, content) \<in> set ?steps" .
  then consider
      "generate_fish_theme (templates b) th semantic = Inr (name, content)"
    | "generate_wofi_colors (templates b) th semantic = Inr (name, content)"
    | "generate_semantic_conf (templates b) semantic = Inr (name, content)"
    | "generate_semantic_css (templates b) semantic = Inr (name, content)"
    | "generate_semantic_fish (templates b) semantic = Inr (name, content)"
    by auto
  then have "\<exists>tmpl. templates b (name @ ''.tmpl'') = Some tmpl \<and> content = render_content tmpl semantic"
  proof cases
    case 1
    from generate_fish_theme_name [OF 1] assms(2) show ?thesis by simp
  next
    case 2
    from generate_wofi_colors_name [OF 2] assms(2) show ?thesis by simp
  next
    case 3
    from generate_semantic_conf_name [OF 3] assms(2) show ?thesis by simp
  next
    case 4
    from generate_semantic_css_content [OF 4] show ?thesis by auto
  next
    case 5
    from generate_semantic_fish_content [OF 5] show ?thesis by auto
  qed
  then obtain tmpl where
    t: "templates b (name @ ''.tmpl'') = Some tmpl" "content = render_content tmpl semantic"
    by blast
  have same: "semantic = merged"
    if "list_all (\<lambda>kv. validate (snd kv) (''semantic.'' @ fst kv) = Inr (snd kv)) merged"
    using validate_items_canonical [OF that] vi by simp
  from df ao vi validate_items_Inr [OF vi] t same show ?thesis by blast
qed

lemma build_example:
  "build example_builder =
     \<lparr>written = [(''fish-theme.fish'', ''FFFFFF''), (''wofi-colors.css'', ''#141414''),
                 (''ida-semantic.conf'', ''89B4FAFF''), (''ida-semantic.css'', ''#89B4FA''),
                 (''ida-semantic.fish'', ''set accent #89B4FA'')],
      diagnostics = [], raised = None\<rparr>"
  by code_simp

lemma example_merged:
  "apply_overrides (global_overrides example_builder) (per_theme_overrides example_builder)
     example_semantic = (example_semantic, [])"
  by code_simp

lemma example_validated:
  "validate_items example_semantic =
     Inr [(''urgent'', ''#FF5F5F''), (''warning'', ''#FFAF5F''), (''success'', ''#5FFF87''),
          (''info'', ''#5FAFFF''), (''accent'', ''#89B4FA''), (''accent2'', ''#CBA6F7'')]"
  by code_simp

theorem semantic_artifacts_validated_witness:
  "(''ida-semantic.css'', ''#89B4FA'') \<in> set (written (build example_builder))
   \<and> (\<exists>semantic. validate_items example_semantic = Inr semantic
          \<and> map_of semantic ''accent'' = Some ''#89B4FA''
          \<and> ''#89B4FA'' = render_content ''{accent}'' semantic)"
proof -
  have r: "(''ida-semantic.css'', ''#89B4FA'') \<in> set (written (build example_builder))"
    by (simp add: build_example)
  from semantic_artifacts_validated [OF r]
  obtain defaults merged warnings semantic tmpl where
    a: "semantic_json example_builder = Some defaults"
    and b: "apply_overrides (global_overrides example_builder) (per_theme_overrides example_builder)
              defaults = (merged, warnings)"
    and c: "validate_items merged = Inr semantic"
    and d: "templates example_builder (''ida-semantic.css'' @ ''.tmpl'') = Some tmpl"
    and e: "''#89B4FA'' = render_content tmpl semantic"
    by blast
  from a have df: "defaults = example_semantic" by (simp add: example_builder_def)
  from b have m: "merged = example_semantic" unfolding df example_merged by simp
  from d have t: "tmpl = ''{accent}''"
    by (simp add: example_builder_def example_templates_def)
  from c have s: "map_of semantic ''accent'' = Some ''#89B4FA''"
    unfolding m example_validated by auto
  from r c e s show ?thesis unfolding m t by blast
qed

text \<open>
  Claim C4 as stated fails: \<open>semantic.json\<close> gives \<open>accent\<close> as \<open>89b4fa\<close> and no file overrides
  it, so the merged value is \<open>89b4fa\<close>; both artifacts are rendered with \<open>#89B4FA\<close>, the
  value returned by the validation loop, where the merged value would give \<open>89b4fa\<close>.
\<close>

theorem semantic_artifacts_as_supplied_counterexample:
  "semantic_json example_builder = Some example_semantic
   \<and> apply_overrides (global_overrides example_builder) (per_theme_overrides example_builder)
       example_semantic = (example_semantic, [])
   \<and> templates example_builder ''ida-semantic.css.tmpl'' = Some ''{accent}''
   \<and> templates example_builder ''ida-semantic.fish.tmpl'' = Some ''set accent {accent}''
   \<and> map_of example_semantic ''accent'' = Some ''89b4fa''
   \<and> render_content ''{accent}'' example_semantic = ''89b4fa''
   \<and> render_content ''set accent {accent}'' example_semantic = ''set accent 89b4fa''
   \<and> raised (build example_builder) = None
   \<and> written (build example_builder) ! 3 = (''ida-semantic.css'', ''#89B4FA'')
   \<and> written (build example_builder) ! 4 = (''ida-semantic.fish'', ''set accent #89B4FA'')"
proof (intro conjI)
  show "apply_overrides (global_overrides example_builder) (per_theme_overrides example_builder)
     example_semantic = (example_semantic, [])" by (rule example_merged)
  show "render_content ''{accent}'' example_semantic = ''89b4fa''" by code_simp
  show "render_content ''set accent {accent}'' example_semantic = ''set accent 89b4fa''" by code_simp
  show "raised (build example_builder) = None" by (simp add: build_example)
  show "written (build example_builder) ! 3 = (''ida-semantic.css'', ''#89B4FA'')"
    by (simp add: build_example)
  show "written (build example_builder) ! 4 = (''ida-semantic.fish'', ''set accent #89B4FA'')"
    by (simp add: build_example)
  show "semantic_json example_builder = Some example_semantic" by (simp add: example_builder_def)
  show "templates example_builder ''ida-semantic.css.tmpl'' = Some ''{accent}''"
    by (simp add: example_builder_def example_templates_def)
  show "templates example_builder ''ida-semantic.fish.tmpl'' = Some ''set accent {accent}''"
    by (simp add: example_builder_def example_templates_def)
  show "map_of example_semantic ''accent'' = Some ''89b4fa''" by (simp add: example_semantic_def)
qed

end
